theory Spec2Isabelle
  imports Main "HOL-Library.Word" "HOL-Library.Multiset"
begin

section \<open>Data model of \<^verbatim>\<open>be/src/runtime/mem_tracker.h\<close>\<close>

text \<open>
  \<^verbatim>\<open>int64_t\<close> is a 64-bit word read in two's complement: \<open>+\<close> and \<open>-\<close> wrap around,
  comparisons are the signed ones (\<open><s\<close>, \<open>\<le>s\<close>). A \<^verbatim>\<open>MemTracker*\<close> is an address;
  the null pointer is \<open>None\<close> of \<open>addr option\<close>.
\<close>

type_synonym int64 = "64 word"
type_synonym addr = nat

definition INT64_MAX :: int64 where
  "INT64_MAX = 9223372036854775807"

text \<open>\<open>INT64_MIN\<close> is the word \<open>2 ^ 63\<close>, read as \<open>- 2 ^ 63\<close> in two's complement.\<close>

definition INT64_MIN :: int64 where
  "INT64_MIN = 9223372036854775808"

text \<open>\<^verbatim>\<open>std::min(a, b)\<close> on \<^verbatim>\<open>int64_t\<close>: \<^verbatim>\<open>(b < a) ? b : a\<close>.\<close>

definition std_min :: "int64 \<Rightarrow> int64 \<Rightarrow> int64" where
  "std_min a b = (if b <s a then b else a)"

definition std_max :: "int64 \<Rightarrow> int64 \<Rightarrow> int64" where
  "std_max a b = (if a <s b then b else a)"

subsection \<open>The counter primitive\<close>

text \<open>
  \<^verbatim>\<open>RuntimeProfile::HighWaterMarkCounter\<close> is declared in \<^verbatim>\<open>util/runtime_profile.h\<close>,
  which is not among the sources. The tracker only calls \<^verbatim>\<open>add\<close>, \<^verbatim>\<open>try_add\<close>,
  \<^verbatim>\<open>set\<close>, \<^verbatim>\<open>current_value\<close> and \<^verbatim>\<open>value\<close> on it.
\<close>

record HighWaterMarkCounter =
  current_value :: int64
  peak_value :: int64

text \<open>
  Modelled from the spec: \<^verbatim>\<open>HighWaterMarkCounter::add\<close> (section 4.1, "fetch-add delta,
  then publish max(peak, new_value) to the peak").
\<close>

definition add :: "int64 \<Rightarrow> HighWaterMarkCounter \<Rightarrow> HighWaterMarkCounter" where
  "add delta c =
     (let new_value = current_value c + delta
      in c\<lparr>current_value := new_value, peak_value := std_max (peak_value c) new_value\<rparr>)"

text \<open>
  Modelled from the spec: \<^verbatim>\<open>HighWaterMarkCounter::try_add\<close> (section 4.1, "read current,
  compute candidate = current + delta; if candidate > limit, return false without
  publishing; ... On success, update peak as above"). Run sequentially, the
  compare-and-swap never fails.
\<close>

definition try_add :: "int64 \<Rightarrow> int64 \<Rightarrow> HighWaterMarkCounter \<Rightarrow> bool \<times> HighWaterMarkCounter" where
  "try_add delta limit c =
     (let candidate = current_value c + delta
      in if limit <s candidate then (False, c)
         else (True, c\<lparr>current_value := candidate,
                        peak_value := std_max (peak_value c) candidate\<rparr>))"

text \<open>
  Modelled from the spec: \<^verbatim>\<open>HighWaterMarkCounter::set\<close> (section 4.1, "unconditional
  store").
\<close>

definition set_value :: "int64 \<Rightarrow> HighWaterMarkCounter \<Rightarrow> HighWaterMarkCounter" where
  "set_value v c = c\<lparr>current_value := v\<rparr>"

subsection \<open>Tracker nodes and the store\<close>

text \<open>
  The fields of \<^verbatim>\<open>class MemTracker\<close> that the accounting operations read or write
  (\<^verbatim>\<open>_limit\<close>, \<^verbatim>\<open>_parent\<close>, \<^verbatim>\<open>_consumption\<close>, \<^verbatim>\<open>_consumption_metric\<close>,
  \<^verbatim>\<open>_all_trackers\<close>, \<^verbatim>\<open>_limit_trackers\<close>). The counter \<^verbatim>\<open>_consumption\<close> points to is
  stored with its tracker. \<^verbatim>\<open>_consumption_metric\<close> is \<open>None\<close> for the null pointer and
  otherwise holds the value the gauge currently reports, converted to \<^verbatim>\<open>int64_t\<close> as the
  assignment in \<^verbatim>\<open>RefreshConsumptionFromMetric\<close> does.
\<close>

record MemTracker =
  limit_f :: int64
  parent_f :: "addr option"
  consumption_f :: HighWaterMarkCounter
  consumption_metric_f :: "int64 option"
  all_trackers_f :: "addr list"
  limit_trackers_f :: "addr list"

text \<open>
  The assertions of the header. \<^verbatim>\<open>DCHECK\<close> is compiled out of release builds and aborts
  the process in debug builds. The model runs the release build and records every violated
  assertion, in order, in the field \<open>dchecks\<close> of the state: a debug build aborts inside
  a call exactly when the call extends \<open>dchecks\<close>, at the first assertion it appends.
\<close>

datatype dcheck =
    Consumption_GE_0 addr
  | Should_not_be_called_on_root
  | Not_has_limit addr
  | End_tracker_is_not_an_ancestor
  | Consumption_metric_not_null
  | Parent_is_null
  | Limit_tracker_has_limit addr

text \<open>
  The store maps every address to the tracker object at it, so trackers that share an
  ancestor share its counter. \<open>gc_calls\<close> is a second record kept beside the program
  state: the invocations of GC functions so far, each with the tracker that owns the
  function, the index of the function in \<^verbatim>\<open>_gc_functions\<close> and the argument passed.
\<close>

record state =
  trackers :: "addr \<Rightarrow> MemTracker"
  dchecks :: "dcheck list"
  gc_calls :: "(addr \<times> nat \<times> int64) list"

text \<open>
  \<^verbatim>\<open>typedef std::function<void(int64_t bytes_to_free)> GcFunction\<close>: arbitrary code that
  may change the tracker objects; assertions violated inside it are not recorded.
  \<^verbatim>\<open>_gc_functions\<close> is filled at setup and only read by the operations below, so it is a
  parameter \<open>gc_functions :: addr \<Rightarrow> GcFunction list\<close> of the operations that run it.
  \<^verbatim>\<open>_all_trackers\<close> is private and written by \<^verbatim>\<open>Init\<close> only, so each operation reads
  it once when it starts.
\<close>

type_synonym GcFunction = "int64 \<Rightarrow> (addr \<Rightarrow> MemTracker) \<Rightarrow> (addr \<Rightarrow> MemTracker)"

definition DCHECK :: "bool \<Rightarrow> dcheck \<Rightarrow> state \<Rightarrow> state" where
  "DCHECK c d s = (if c then s else s\<lparr>dchecks := dchecks s @ [d]\<rparr>)"

definition update_consumption ::
  "addr \<Rightarrow> (HighWaterMarkCounter \<Rightarrow> HighWaterMarkCounter) \<Rightarrow> state \<Rightarrow> state" where
  "update_consumption t f s =
     s\<lparr>trackers := (trackers s)(t := (trackers s t)\<lparr>consumption_f := f (consumption_f (trackers s t))\<rparr>)\<rparr>"

subsection \<open>Accessors\<close>

definition limit :: "addr \<Rightarrow> state \<Rightarrow> int64" where
  "limit t s = limit_f (trackers s t)"

definition has_limit :: "addr \<Rightarrow> state \<Rightarrow> bool" where
  "has_limit t s = (0 \<le>s limit_f (trackers s t))"

definition consumption :: "addr \<Rightarrow> state \<Rightarrow> int64" where
  "consumption t s = current_value (consumption_f (trackers s t))"


definition limit_exceeded :: "addr \<Rightarrow> state \<Rightarrow> bool" where
  "limit_exceeded t s =
     (0 \<le>s limit_f (trackers s t) \<and> limit_f (trackers s t) <s consumption t s)"

definition set_limit :: "addr \<Rightarrow> int64 \<Rightarrow> state \<Rightarrow> state" where
  "set_limit t new_limit s =
     s\<lparr>trackers := (trackers s)(t := (trackers s t)\<lparr>limit_f := new_limit\<rparr>)\<rparr>"

section \<open>Operations\<close>

subsection \<open>\<^verbatim>\<open>RefreshConsumptionFromMetric\<close>\<close>

text \<open>
  The operations below call it only on a tracker with a metric. On a null metric the source
  would dereference the null pointer; the model records the violated assertion and stores
  nothing.
\<close>

definition RefreshConsumptionFromMetric :: "addr \<Rightarrow> state \<Rightarrow> state" where
  "RefreshConsumptionFromMetric t s =
     (let s1 = DCHECK (consumption_metric_f (trackers s t) \<noteq> None) Consumption_metric_not_null s;
          s2 = DCHECK (parent_f (trackers s1 t) = None) Parent_is_null s1
      in case consumption_metric_f (trackers s2 t) of
           None \<Rightarrow> s2
         | Some v \<Rightarrow> update_consumption t (set_value v) s2)"

subsection \<open>\<^verbatim>\<open>consume\<close> and \<^verbatim>\<open>release\<close>\<close>

text \<open>The two \<^verbatim>\<open>for\<close> loops over \<^verbatim>\<open>_all_trackers\<close>, from \<^verbatim>\<open>begin()\<close> to \<^verbatim>\<open>end()\<close>.\<close>

primrec consume_loop :: "int64 \<Rightarrow> addr list \<Rightarrow> state \<Rightarrow> state" where
  "consume_loop bytes [] s = s"
| "consume_loop bytes (tracker # rest) s =
     (let s1 = update_consumption tracker (add bytes) s;
          s2 = (if consumption_metric_f (trackers s1 tracker) = None
                then DCHECK (0 \<le>s consumption tracker s1) (Consumption_GE_0 tracker) s1
                else s1)
      in consume_loop bytes rest s2)"

primrec release_loop :: "int64 \<Rightarrow> addr list \<Rightarrow> state \<Rightarrow> state" where
  "release_loop bytes [] s = s"
| "release_loop bytes (tracker # rest) s =
     (let s1 = update_consumption tracker (add (- bytes)) s;
          s2 = (if consumption_metric_f (trackers s1 tracker) = None
                then DCHECK (0 \<le>s consumption tracker s1) (Consumption_GE_0 tracker) s1
                else s1)
      in release_loop bytes rest s2)"

text \<open>
  \<^verbatim>\<open>consume\<close> and \<^verbatim>\<open>release\<close> call each other on a negative argument. With wrap-around
  \<open>- INT64_MIN = INT64_MIN\<close>, so on that argument the two never return: the pair is one
  partial function, \<open>None\<close> meaning that the call does not return. The flag is \<open>False\<close>
  for the body of \<^verbatim>\<open>consume\<close> and \<open>True\<close> for the body of \<^verbatim>\<open>release\<close>.
\<close>

partial_function (option) consume_release :: "bool \<Rightarrow> addr \<Rightarrow> int64 \<Rightarrow> state \<Rightarrow> state option" where
  "consume_release is_release t bytes s =
     (if bytes \<le>s 0 then
        (if bytes <s 0 then consume_release (\<not> is_release) t (- bytes) s else Some s)
      else if consumption_metric_f (trackers s t) \<noteq> None then
        Some (RefreshConsumptionFromMetric t s)
      else if is_release then Some (release_loop bytes (all_trackers_f (trackers s t)) s)
      else Some (consume_loop bytes (all_trackers_f (trackers s t)) s))"

definition consume :: "addr \<Rightarrow> int64 \<Rightarrow> state \<Rightarrow> state option" where
  "consume t bytes s = consume_release False t bytes s"

definition release :: "addr \<Rightarrow> int64 \<Rightarrow> state \<Rightarrow> state option" where
  "release t bytes s = consume_release True t bytes s"

subsection \<open>\<^verbatim>\<open>consume_local\<close> and \<^verbatim>\<open>release_local\<close>\<close>

text \<open>
  The loop \<^verbatim>\<open>for (int i = 0; i < _all_trackers.size(); ++i)\<close>. The empty list is the
  program point after the loop, where \<^verbatim>\<open>DCHECK(false) << "end_tracker is not an ancestor"\<close>
  stands. \<^verbatim>\<open>end_tracker\<close> is a pointer and may be null.
\<close>

primrec consume_local_loop :: "int64 \<Rightarrow> addr option \<Rightarrow> addr list \<Rightarrow> state \<Rightarrow> state" where
  "consume_local_loop bytes end_tracker [] s = DCHECK False End_tracker_is_not_an_ancestor s"
| "consume_local_loop bytes end_tracker (tracker # rest) s =
     (if Some tracker = end_tracker then s
      else
        let s1 = DCHECK (\<not> has_limit tracker s) (Not_has_limit tracker) s;
            s2 = update_consumption tracker (add bytes) s1
        in consume_local_loop bytes end_tracker rest s2)"

definition consume_local :: "addr \<Rightarrow> int64 \<Rightarrow> addr option \<Rightarrow> state \<Rightarrow> state" where
  "consume_local t bytes end_tracker s =
     (let s1 = DCHECK (consumption_metric_f (trackers s t) = None) Should_not_be_called_on_root s
      in consume_local_loop bytes end_tracker (all_trackers_f (trackers s1 t)) s1)"

definition release_local :: "addr \<Rightarrow> int64 \<Rightarrow> addr option \<Rightarrow> state \<Rightarrow> state" where
  "release_local t bytes end_tracker s = consume_local t (- bytes) end_tracker s"

subsection \<open>Queries over \<^verbatim>\<open>_limit_trackers\<close>\<close>

primrec any_limit_exceeded_loop :: "addr list \<Rightarrow> state \<Rightarrow> bool" where
  "any_limit_exceeded_loop [] s = False"
| "any_limit_exceeded_loop (tracker # rest) s =
     (if limit_exceeded tracker s then True else any_limit_exceeded_loop rest s)"

definition any_limit_exceeded :: "addr \<Rightarrow> state \<Rightarrow> bool" where
  "any_limit_exceeded t s = any_limit_exceeded_loop (limit_trackers_f (trackers s t)) s"

primrec find_limit_exceeded_tracker_loop :: "addr list \<Rightarrow> state \<Rightarrow> addr option" where
  "find_limit_exceeded_tracker_loop [] s = None"
| "find_limit_exceeded_tracker_loop (tracker # rest) s =
     (if limit_exceeded tracker s then Some tracker
      else find_limit_exceeded_tracker_loop rest s)"

definition find_limit_exceeded_tracker :: "addr \<Rightarrow> state \<Rightarrow> addr option" where
  "find_limit_exceeded_tracker t s =
     find_limit_exceeded_tracker_loop (limit_trackers_f (trackers s t)) s"

primrec spare_capacity_loop :: "addr list \<Rightarrow> state \<Rightarrow> int64 \<Rightarrow> int64" where
  "spare_capacity_loop [] s result = result"
| "spare_capacity_loop (tracker # rest) s result =
     (let mem_left = limit tracker s - consumption tracker s
      in spare_capacity_loop rest s (std_min result mem_left))"

definition spare_capacity :: "addr \<Rightarrow> state \<Rightarrow> int64" where
  "spare_capacity t s = spare_capacity_loop (limit_trackers_f (trackers s t)) s INT64_MAX"

primrec lowest_limit_loop :: "addr list \<Rightarrow> int64 \<Rightarrow> state \<Rightarrow> int64 \<times> state" where
  "lowest_limit_loop [] v s = (v, s)"
| "lowest_limit_loop (tracker # rest) v s =
     (let s1 = DCHECK (has_limit tracker s) (Limit_tracker_has_limit tracker) s
      in lowest_limit_loop rest (std_min v (limit tracker s1)) s1)"

definition lowest_limit :: "addr \<Rightarrow> state \<Rightarrow> int64 \<times> state" where
  "lowest_limit t s =
     (if limit_trackers_f (trackers s t) = [] then (- 1, s)
      else lowest_limit_loop (limit_trackers_f (trackers s t)) INT64_MAX s)"

subsection \<open>\<^verbatim>\<open>GcMemory\<close>\<close>

text \<open>
  \<^verbatim>\<open>GcMemory\<close> is declared in the header and defined in \<^verbatim>\<open>mem_tracker.cpp\<close>, which is
  not among the sources. The GC lock has no effect in a sequential run, and the
  diagnostic metrics \<^verbatim>\<open>_num_gcs_metric\<close> and \<^verbatim>\<open>_bytes_freed_by_last_gc_metric\<close> are read
  by no operation here; both are left out.
\<close>

text \<open>
  Modelled from the spec: the callback loop of \<^verbatim>\<open>MemTracker::GcMemory\<close> (section 4.6,
  "invoke each registered callback in registration order with
  bytes_to_free = current - max_consumption, updating bytes_to_free downward as
  consumption drops"). \<open>i\<close> is the index of the next callback; every invocation is
  appended to \<open>gc_calls\<close>.
\<close>

primrec run_gc_functions ::
  "addr \<Rightarrow> int64 \<Rightarrow> nat \<Rightarrow> GcFunction list \<Rightarrow> state \<Rightarrow> state" where
  "run_gc_functions t max_consumption i [] s = s"
| "run_gc_functions t max_consumption i (gc # rest) s =
     (let bytes_to_free = consumption t s - max_consumption;
          s1 = s\<lparr>trackers := gc bytes_to_free (trackers s),
                 gc_calls := gc_calls s @ [(t, i, bytes_to_free)]\<rparr>
      in run_gc_functions t max_consumption (Suc i) rest s1)"

text \<open>
  Modelled from the spec: \<^verbatim>\<open>MemTracker::GcMemory\<close> (section 4.6, "Re-reads current
  consumption; if current \<le> max_consumption, returns false ... After all callbacks,
  returns current > max_consumption").
\<close>

definition GcMemory ::
  "(addr \<Rightarrow> GcFunction list) \<Rightarrow> addr \<Rightarrow> int64 \<Rightarrow> state \<Rightarrow> bool \<times> state" where
  "GcMemory gc_functions t max_consumption s =
     (if consumption t s \<le>s max_consumption then (False, s)
      else
        let s1 = run_gc_functions t max_consumption 0 (gc_functions t) s
        in (max_consumption <s consumption t s1, s1))"

text \<open>
  The header declares \<^verbatim>\<open>_gc_functions\<close> and documents that "GcFunctions can be attached to
  a MemTracker" and "are called in the order they are added"; the member that attaches
  one is not among the sources.
\<close>

text \<open>
  Modelled from the spec: \<^verbatim>\<open>add_gc_callback(fn)\<close> (section 6, "Operations exposed to
  callers"; section 3, \<open>gc_callbacks\<close>: "Ordered list of reclamation callbacks"). The
  function is appended to the list of the tracker.
\<close>

definition add_gc_callback ::
  "addr \<Rightarrow> GcFunction \<Rightarrow> (addr \<Rightarrow> GcFunction list) \<Rightarrow> (addr \<Rightarrow> GcFunction list)" where
  "add_gc_callback t gc gc_functions = gc_functions(t := gc_functions t @ [gc])"

subsection \<open>\<^verbatim>\<open>try_consume\<close>\<close>

definition try_add_at :: "addr \<Rightarrow> int64 \<Rightarrow> int64 \<Rightarrow> state \<Rightarrow> bool \<times> state" where
  "try_add_at tracker bytes limit_v s =
     (case try_add bytes limit_v (consumption_f (trackers s tracker)) of
        (ok, c) \<Rightarrow> (ok, update_consumption tracker (\<lambda>_. c) s))"

text \<open>
  The inner \<^verbatim>\<open>while (true)\<close> loop at one tracker with a limit. It yields \<open>True\<close> when
  \<^verbatim>\<open>try_add\<close> succeeded (the \<^verbatim>\<open>break\<close>) and \<open>False\<close> when \<^verbatim>\<open>GcMemory\<close> returned
  true; \<open>None\<close> means that the loop runs forever.
\<close>

partial_function (option) try_consume_while ::
  "(addr \<Rightarrow> GcFunction list) \<Rightarrow> addr \<Rightarrow> int64 \<Rightarrow> int64 \<Rightarrow> state \<Rightarrow> (bool \<times> state) option" where
  "try_consume_while gc_functions tracker bytes limit_v s =
     (case try_add_at tracker bytes limit_v s of
        (added, s1) \<Rightarrow>
          if added then Some (True, s1)
          else
            (case GcMemory gc_functions tracker (limit_v - bytes) s1 of
               (still_over, s2) \<Rightarrow>
                 if still_over then Some (False, s2)
                 else try_consume_while gc_functions tracker bytes limit_v s2))"

text \<open>
  The roll-back loop \<^verbatim>\<open>for (int j = _all_trackers.size() - 1; j > i; --j)\<close>: the
  trackers above index \<open>i\<close>, root first.
\<close>

primrec rollback :: "int64 \<Rightarrow> addr list \<Rightarrow> state \<Rightarrow> state" where
  "rollback bytes [] s = s"
| "rollback bytes (tracker # rest) s =
     rollback bytes rest (update_consumption tracker (add (- bytes)) s)"

text \<open>
  The outer loop \<^verbatim>\<open>for (i = _all_trackers.size() - 1; i >= 0; --i)\<close>. \<open>todo\<close> holds
  \<^verbatim>\<open>_all_trackers[i], ..., _all_trackers[0]\<close> in this order and \<open>visited\<close> holds
  \<^verbatim>\<open>_all_trackers[size - 1], ..., _all_trackers[i + 1]\<close>, the trackers already updated.
  \<^verbatim>\<open>DCHECK_GE(i, 0)\<close> and \<^verbatim>\<open>DCHECK_EQ(i, -1)\<close> hold by the loop conditions.
\<close>

primrec try_consume_loop ::
  "(addr \<Rightarrow> GcFunction list) \<Rightarrow> int64 \<Rightarrow> addr list \<Rightarrow> addr list \<Rightarrow> state \<Rightarrow> (bool \<times> state) option" where
  "try_consume_loop gc_functions bytes [] visited s = Some (True, s)"
| "try_consume_loop gc_functions bytes (tracker # todo) visited s =
     (let limit_v = limit tracker s
      in if limit_v <s 0 then
           try_consume_loop gc_functions bytes todo (visited @ [tracker])
             (update_consumption tracker (add bytes) s)
         else
           (case try_consume_while gc_functions tracker bytes limit_v s of
              None \<Rightarrow> None
            | Some (added, s1) \<Rightarrow>
                if added then try_consume_loop gc_functions bytes todo (visited @ [tracker]) s1
                else Some (False, rollback bytes visited s1)))"

definition try_consume ::
  "(addr \<Rightarrow> GcFunction list) \<Rightarrow> addr \<Rightarrow> int64 \<Rightarrow> state \<Rightarrow> (bool \<times> state) option" where
  "try_consume gc_functions t bytes s =
     (if bytes \<le>s 0 then Some (True, s)
      else
        let s1 = (if consumption_metric_f (trackers s t) \<noteq> None
                  then RefreshConsumptionFromMetric t s else s)
        in try_consume_loop gc_functions bytes (rev (all_trackers_f (trackers s1 t))) [] s1)"

subsection \<open>Construction\<close>

text \<open>
  The constructors and \<^verbatim>\<open>Init\<close> are defined in \<^verbatim>\<open>mem_tracker.cpp\<close>, which is not among
  the sources. The child list of the parent is read by no operation here and is left out.
\<close>

text \<open>
  Modelled from the spec: the walk of \<^verbatim>\<open>MemTracker::Init\<close> (section 4.2, "Walks up the
  parent chain and populates ancestor_chain (self first) and limited_ancestor_chain").
  \<open>None\<close> means that the walk does not end, which needs a cycle of parent pointers.
\<close>

partial_function (option) Init_walk ::
  "state \<Rightarrow> addr option \<Rightarrow> addr list \<Rightarrow> addr list \<Rightarrow> (addr list \<times> addr list) option" where
  "Init_walk s cur all_trackers limit_trackers =
     (case cur of
        None \<Rightarrow> Some (all_trackers, limit_trackers)
      | Some a \<Rightarrow>
          Init_walk s (parent_f (trackers s a)) (all_trackers @ [a])
            (if has_limit a s then limit_trackers @ [a] else limit_trackers))"

text \<open>Modelled from the spec: \<^verbatim>\<open>MemTracker::Init\<close> (section 4.2).\<close>

definition Init :: "addr \<Rightarrow> state \<Rightarrow> state option" where
  "Init this s =
     (case Init_walk s (Some this) [] [] of
        None \<Rightarrow> None
      | Some (all_trackers, limit_trackers) \<Rightarrow>
          Some (s\<lparr>trackers := (trackers s)
                  (this := (trackers s this)\<lparr>all_trackers_f := all_trackers,
                                              limit_trackers_f := limit_trackers\<rparr>)\<rparr>))"

text \<open>
  Modelled from the spec: the constructor \<^verbatim>\<open>MemTracker(byte_limit, label, parent)\<close>
  (section 4.2 and the lifecycle paragraph of section 3): a fresh counter, no metric, then
  \<^verbatim>\<open>Init\<close>.
\<close>

definition MemTracker_new :: "addr \<Rightarrow> int64 \<Rightarrow> addr option \<Rightarrow> state \<Rightarrow> state option" where
  "MemTracker_new this byte_limit parent s =
     Init this
       (s\<lparr>trackers := (trackers s)
          (this := \<lparr>limit_f = byte_limit, parent_f = parent,
                    consumption_f = \<lparr>current_value = 0, peak_value = 0\<rparr>,
                    consumption_metric_f = None,
                    all_trackers_f = [], limit_trackers_f = []\<rparr>)\<rparr>)"

text \<open>
  The header documents that "a consumption metric can specified, and then the metric's
  value is used as the consumption"; the constructor that takes one is not among the
  sources.
\<close>


section \<open>Notions used in the statements\<close>

subsection \<open>Structure and chains\<close>

text \<open>
  Two states have the same structure when every tracker has the same limit, parent,
  metric and chains in both: only counters (and the two logs) may differ.
\<close>

definition same_structure :: "state \<Rightarrow> state \<Rightarrow> bool" where
  "same_structure s s' =
     (\<forall>a. limit_f (trackers s' a) = limit_f (trackers s a) \<and>
          parent_f (trackers s' a) = parent_f (trackers s a) \<and>
          consumption_metric_f (trackers s' a) = consumption_metric_f (trackers s a) \<and>
          all_trackers_f (trackers s' a) = all_trackers_f (trackers s a) \<and>
          limit_trackers_f (trackers s' a) = limit_trackers_f (trackers s a))"

text \<open>
  The field comment \<^verbatim>\<open>// _all_trackers with valid limits\<close> on \<^verbatim>\<open>_limit_trackers\<close>, as
  a predicate on the current state.
\<close>

definition limit_trackers_invariant :: "addr \<Rightarrow> state \<Rightarrow> bool" where
  "limit_trackers_invariant t s =
     (limit_trackers_f (trackers s t) = filter (\<lambda>a. has_limit a s) (all_trackers_f (trackers s t)))"

text \<open>
  \<open>parent_chain s cur path\<close>: \<open>path\<close> lists the trackers from \<open>cur\<close> up to the root of
  its tree, following \<^verbatim>\<open>_parent\<close>.
\<close>

fun parent_chain :: "state \<Rightarrow> addr option \<Rightarrow> addr list \<Rightarrow> bool" where
  "parent_chain s cur [] = (cur = None)"
| "parent_chain s cur (a # path) = (cur = Some a \<and> parent_chain s (parent_f (trackers s a)) path)"

subsection \<open>Sequences of calls\<close>

text \<open>
  A caller's sequence of \<^verbatim>\<open>consume\<close> and \<^verbatim>\<open>release\<close> calls on one tracker, run in
  order. The sequence is balanced when the amounts consumed and the amounts released are
  the same, counted with multiplicity: every \<^verbatim>\<open>consume(b)\<close> has its \<^verbatim>\<open>release(b)\<close>.
\<close>

datatype op = Consume int64 | Release int64

fun run_ops :: "addr \<Rightarrow> op list \<Rightarrow> state \<Rightarrow> state option" where
  "run_ops t [] s = Some s"
| "run_ops t (Consume b # ops) s =
     (case consume t b s of None \<Rightarrow> None | Some s1 \<Rightarrow> run_ops t ops s1)"
| "run_ops t (Release b # ops) s =
     (case release t b s of None \<Rightarrow> None | Some s1 \<Rightarrow> run_ops t ops s1)"

fun consumed :: "op list \<Rightarrow> int64 list" where
  "consumed [] = []"
| "consumed (Consume b # ops) = b # consumed ops"
| "consumed (Release b # ops) = consumed ops"

fun released :: "op list \<Rightarrow> int64 list" where
  "released [] = []"
| "released (Consume b # ops) = released ops"
| "released (Release b # ops) = b # released ops"

definition balanced :: "op list \<Rightarrow> bool" where
  "balanced ops = (mset (consumed ops) = mset (released ops))"

subsection \<open>The first failing \<^verbatim>\<open>try_add\<close> of a call\<close>

text \<open>
  What the outer loop of \<^verbatim>\<open>try_consume\<close> does before any GC function runs: going down
  from the root, every tracker without a limit and every tracker at which \<open>bytes\<close> fit
  gets \<open>bytes\<close> added. \<open>first_failure\<close> is \<open>Inr s'\<close> when this reaches the end of the
  chain, \<open>s'\<close> being the state then, and \<open>Inl (visited, a, todo, s')\<close> when it meets a
  tracker \<open>a\<close> with a limit and \<open>limit < consumption + bytes\<close>, the first at which
  \<^verbatim>\<open>try_add\<close> fails: \<open>visited\<close> are the trackers raised so far, root first, \<open>todo\<close> the
  trackers below \<open>a\<close>, and \<open>s'\<close> the state at that moment.
\<close>

primrec first_failure ::
  "int64 \<Rightarrow> addr list \<Rightarrow> addr list \<Rightarrow> state \<Rightarrow> (addr list \<times> addr \<times> addr list \<times> state) + state" where
  "first_failure bytes [] visited s = Inr s"
| "first_failure bytes (a # todo) visited s =
     (if 0 \<le>s limit a s \<and> limit a s <s consumption a s + bytes
      then Inl (visited, a, todo, s)
      else first_failure bytes todo (visited @ [a]) (update_consumption a (add bytes) s))"


subsection \<open>The invocations of GC functions\<close>

text \<open>
  \<open>consumption_before_gc gc_functions t max_consumption k s\<close> is the consumption of \<open>t\<close>
  that the GC function with index \<open>k\<close> finds when \<^verbatim>\<open>GcMemory(max_consumption)\<close> runs in
  state \<open>s\<close>: the one left by the \<open>k\<close> functions before it. \<open>sub_no_overflow a b\<close> says
  that \<open>a - b\<close> lies in the range of \<^verbatim>\<open>int64_t\<close> (the subtraction is undefined in C++
  otherwise). \<open>calls_of a calls\<close> lists, in order, the indices of the GC functions of
  tracker \<open>a\<close> among the recorded invocations \<open>calls\<close>.
\<close>

definition consumption_before_gc ::
  "(addr \<Rightarrow> GcFunction list) \<Rightarrow> addr \<Rightarrow> int64 \<Rightarrow> nat \<Rightarrow> state \<Rightarrow> int64" where
  "consumption_before_gc gc_functions t max_consumption k s =
     consumption t (run_gc_functions t max_consumption 0 (take k (gc_functions t)) s)"

definition sub_no_overflow :: "int64 \<Rightarrow> int64 \<Rightarrow> bool" where
  "sub_no_overflow a b = (- (2 ^ 63) \<le> sint a - sint b \<and> sint a - sint b < 2 ^ 63)"

definition calls_of :: "addr \<Rightarrow> (addr \<times> nat \<times> int64) list \<Rightarrow> nat list" where
  "calls_of a calls = map (\<lambda>c. fst (snd c)) (filter (\<lambda>c. fst c = a) calls)"

subsection \<open>The scenarios of the specification\<close>

text \<open>
  Object graphs for the scenarios of the specification (section 8), as the constructors
  leave them (shown below for S1, S2 and S3): \<^verbatim>\<open>_all_trackers\<close> is the tracker followed
  by its ancestors up to the root,
  \<^verbatim>\<open>_limit_trackers\<close> the entries of it with a limit. \<open>tracker\<close> takes the limit, the
  parent, the bytes consumed so far, the metric and the two chains. Addresses that hold no
  tracker of the scenario hold an unlimited tracker with empty chains. The root is at
  address 0.
\<close>

definition tracker ::
  "int64 \<Rightarrow> addr option \<Rightarrow> int64 \<Rightarrow> int64 option \<Rightarrow> addr list \<Rightarrow> addr list \<Rightarrow> MemTracker" where
  "tracker byte_limit parent consumed_bytes metric all_trackers limit_trackers =
     \<lparr>limit_f = byte_limit, parent_f = parent,
      consumption_f = \<lparr>current_value = consumed_bytes, peak_value = consumed_bytes\<rparr>,
      consumption_metric_f = metric,
      all_trackers_f = all_trackers, limit_trackers_f = limit_trackers\<rparr>"

definition store :: "(addr \<times> MemTracker) list \<Rightarrow> state" where
  "store ts =
     \<lparr>trackers = (\<lambda>a. case map_of ts a of None \<Rightarrow> tracker (- 1) None 0 None [] [] | Some t \<Rightarrow> t),
      dchecks = [], gc_calls = []\<rparr>"

text \<open>S1: root (no limit) and child (no limit).\<close>

definition scenario_S1 :: state where
  "scenario_S1 = store [(0, tracker (- 1) None 0 None [0] []),
                        (1, tracker (- 1) (Some 0) 0 None [1, 0] [])]"

text \<open>S2: root (limit 1000) and child (no limit); the same tree with 600 bytes charged.\<close>

definition scenario_S2 :: state where
  "scenario_S2 = store [(0, tracker 1000 None 0 None [0] [0]),
                        (1, tracker (- 1) (Some 0) 0 None [1, 0] [0])]"

definition scenario_S2_charged :: state where
  "scenario_S2_charged = store [(0, tracker 1000 None 600 None [0] [0]),
                                (1, tracker (- 1) (Some 0) 600 None [1, 0] [0])]"

text \<open>S3: root (limit 1000), mid (limit 300) and leaf (no limit).\<close>

definition scenario_S3 :: state where
  "scenario_S3 = store [(0, tracker 1000 None 0 None [0] [0]),
                        (1, tracker 300 (Some 0) 0 None [1, 0] [1, 0]),
                        (2, tracker (- 1) (Some 1) 0 None [2, 1, 0] [1, 0])]"

text \<open>The tree of S3 with the root's limit exceeded: root at 1100, mid and leaf at 100.\<close>

definition scenario_exceeded :: state where
  "scenario_exceeded = store [(0, tracker 1000 None 1100 None [0] [0]),
                              (1, tracker 300 (Some 0) 100 None [1, 0] [1, 0]),
                              (2, tracker (- 1) (Some 1) 100 None [2, 1, 0] [1, 0])]"

text \<open>S4 and S5: a root with limit 1000 and consumption 900.\<close>

definition scenario_S4 :: state where
  "scenario_S4 = store [(0, tracker 1000 None 900 None [0] [0])]"

text \<open>S6 after \<^verbatim>\<open>A.consume(50)\<close>: root at 0, A at 1 and B at 2, all without limit.\<close>

definition scenario_S6 :: state where
  "scenario_S6 = store [(0, tracker (- 1) None 50 None [0] []),
                        (1, tracker (- 1) (Some 0) 50 None [1, 0] []),
                        (2, tracker (- 1) (Some 0) 0 None [2, 0] [])]"

text \<open>S3 after \<^verbatim>\<open>leaf.consume(250)\<close>: root, mid and leaf at 250.\<close>

definition scenario_S3_charged :: state where
  "scenario_S3_charged = store [(0, tracker 1000 None 250 None [0] [0]),
                                (1, tracker 300 (Some 0) 250 None [1, 0] [1, 0]),
                                (2, tracker (- 1) (Some 1) 250 None [2, 1, 0] [1, 0])]"

text \<open>
  Roots with limit 1000 and a consumption metric, as constructed (the counter is 0): one
  whose metric reports 500, with a child; one whose metric reports 950.
\<close>

definition scenario_metric_root :: state where
  "scenario_metric_root = store [(0, tracker 1000 None 0 (Some 500) [0] [0]),
                                 (1, tracker (- 1) (Some 0) 0 None [1, 0] [0])]"


text \<open>
  GC functions for the scenarios: one that does what \<^verbatim>\<open>release(amount)\<close> does to the
  counter of the tracker at \<open>a\<close>, a tracker without metric whose chain is itself alone;
  one that does it to the counters of the trackers \<open>as\<close>, the chain of the tracker
  that releases; one that frees nothing.
\<close>

definition gc_release :: "addr \<Rightarrow> int64 \<Rightarrow> GcFunction" where
  "gc_release a amount bytes_to_free h =
     h(a := (h a)\<lparr>consumption_f := add (- amount) (consumption_f (h a))\<rparr>)"

definition gc_release_chain :: "addr list \<Rightarrow> int64 \<Rightarrow> GcFunction" where
  "gc_release_chain as amount bytes_to_free h =
     fold (\<lambda>a h. gc_release a amount bytes_to_free h) as h"

definition gc_nothing :: GcFunction where
  "gc_nothing bytes_to_free h = h"

text \<open>
  The registrations: none at all; S4, one function at the root that releases 200 bytes;
  S5, one at the root that frees nothing; one at the root that releases only 50 bytes;
  two at the root that release 60 bytes each; one at mid (address 1) that releases 100
  bytes at mid and root, as \<^verbatim>\<open>mid.release(100)\<close> does; one at mid that frees nothing.
\<close>

definition no_gc_functions :: "addr \<Rightarrow> GcFunction list" where
  "no_gc_functions a = []"

definition gc_functions_S4 :: "addr \<Rightarrow> GcFunction list" where
  "gc_functions_S4 = add_gc_callback 0 (gc_release 0 200) no_gc_functions"

definition gc_functions_S5 :: "addr \<Rightarrow> GcFunction list" where
  "gc_functions_S5 = add_gc_callback 0 gc_nothing no_gc_functions"


definition gc_functions_two :: "addr \<Rightarrow> GcFunction list" where
  "gc_functions_two =
     add_gc_callback 0 (gc_release 0 60) (add_gc_callback 0 (gc_release 0 60) no_gc_functions)"

definition gc_functions_mid :: "addr \<Rightarrow> GcFunction list" where
  "gc_functions_mid = add_gc_callback 1 (gc_release_chain [1, 0] 100) no_gc_functions"

definition gc_functions_mid_nothing :: "addr \<Rightarrow> GcFunction list" where
  "gc_functions_mid_nothing = add_gc_callback 1 gc_nothing no_gc_functions"

section \<open>Signed 64-bit arithmetic\<close>

lemmas sint_eval = word_sle_eq word_sless_alt

lemma neg_sless_0: "(b::int64) <s 0 \<Longrightarrow> b \<noteq> INT64_MIN \<Longrightarrow> 0 <s - b"
proof -
  assume a: "b <s 0" "b \<noteq> INT64_MIN"
  have "sint b \<noteq> - (2 ^ 63)"
  proof
    assume "sint b = - (2 ^ 63)"
    then have "word_of_int (sint b) = (word_of_int (- (2 ^ 63)) :: int64)" by simp
    then have "b = INT64_MIN" by (simp add: INT64_MIN_def)
    with a show False by simp
  qed
  moreover have "- (2 ^ 63) \<le> sint b" using sint_ge[of b] by simp
  moreover have "sint b < 0" using a by (simp add: word_sless_alt)
  ultimately have "sint (- b) = - sint b"
    by (simp add: sint_word_ariths signed_take_bit_int_eq_self)
  then show ?thesis using \<open>sint b < 0\<close> by (simp add: word_sless_alt)
qed

lemma not_sless_0: "\<not> (l::int64) <s 0 \<longleftrightarrow> 0 \<le>s l"
  by (rule signed.not_less)

lemma sle_INT64_MAX: "x \<le>s INT64_MAX"
  using sint_lt[of x] by (simp add: INT64_MAX_def word_sle_eq)

lemma std_min_sle: "std_min a b \<le>s a" "std_min a b \<le>s b"
  by (auto simp: std_min_def word_sle_eq word_sless_alt)

lemma exceeded_mem_left_negative:
  assumes "0 \<le>s (l::int64)" "l <s c"
  shows "l - c <s 0"
proof -
  have l: "0 \<le> sint l" and lc: "sint l < sint c"
    using assms by (simp_all add: word_sle_eq word_sless_alt)
  have "sint c < 2 ^ 63" using sint_lt[of c] by simp
  with l lc have "sint (l - c) = sint l - sint c"
    by (simp add: sint_word_ariths signed_take_bit_int_eq_self)
  with lc show ?thesis by (simp add: word_sless_alt)
qed

lemma room_after_gc:
  assumes "0 \<le>s (l::int64)" "0 <s b" "c \<le>s l - b"
  shows "\<not> l <s c + b"
proof -
  have l: "0 \<le> sint l" and b: "0 < sint b" using assms(1,2) by (simp_all add: sint_eval)
  have lu: "sint l < 2 ^ 63" using sint_lt[of l] by simp
  have bu: "sint b < 2 ^ 63" using sint_lt[of b] by simp
  have cl: "- (2 ^ 63) \<le> sint c" using sint_ge[of c] by simp
  have "sint (l - b) = sint l - sint b"
    using l b lu bu by (simp add: sint_word_ariths signed_take_bit_int_eq_self)
  with assms(3) have c: "sint c \<le> sint l - sint b" by (simp add: sint_eval)
  have "sint (c + b) = sint c + sint b"
    using c cl b lu by (simp add: sint_word_ariths signed_take_bit_int_eq_self)
  with c show ?thesis by (simp add: sint_eval)
qed

lemma sub_no_overflow_sint: "sub_no_overflow a b \<Longrightarrow> sint (a - b) = sint a - sint b"
  by (simp add: sub_no_overflow_def sint_word_ariths signed_take_bit_int_eq_self)

lemma sub_no_overflow_mono:
  assumes "c' \<le>s c" "sub_no_overflow c' m" "sub_no_overflow c m"
  shows "c' - m \<le>s c - m"
  using assms by (simp add: sub_no_overflow_sint sint_eval)

lemma sint_sub_nonneg:
  assumes "0 \<le>s (l::int64)" "0 \<le>s c"
  shows "sint (l - c) = sint l - sint c"
proof -
  have "0 \<le> sint l" "0 \<le> sint c" using assms by (simp_all add: sint_eval)
  moreover have "sint l < 2 ^ 63" "sint c < 2 ^ 63" using sint_lt[of l] sint_lt[of c] by simp_all
  ultimately show ?thesis by (simp add: sint_word_ariths signed_take_bit_int_eq_self)
qed

section \<open>Basic facts about the store\<close>

lemma trackers_DCHECK [simp]: "trackers (DCHECK c d s) = trackers s"
  by (simp add: DCHECK_def)

lemma gc_calls_DCHECK [simp]: "gc_calls (DCHECK c d s) = gc_calls s"
  by (simp add: DCHECK_def)

lemma dchecks_DCHECK: "dchecks (DCHECK c d s) = (if c then dchecks s else dchecks s @ [d])"
  by (simp add: DCHECK_def)

lemma DCHECK_True [simp]: "DCHECK True d s = s"
  by (simp add: DCHECK_def)

lemma trackers_update_consumption:
  "trackers (update_consumption t f s) a =
     (if a = t then (trackers s t)\<lparr>consumption_f := f (consumption_f (trackers s t))\<rparr>
      else trackers s a)"
  by (simp add: update_consumption_def)

lemma dchecks_update_consumption [simp]: "dchecks (update_consumption t f s) = dchecks s"
  by (simp add: update_consumption_def)

lemma gc_calls_update_consumption [simp]: "gc_calls (update_consumption t f s) = gc_calls s"
  by (simp add: update_consumption_def)

lemma update_consumption_same:
  "f (consumption_f (trackers s t)) = consumption_f (trackers s t) \<Longrightarrow> update_consumption t f s = s"
  by (simp add: update_consumption_def)

lemma consumption_DCHECK [simp]: "consumption a (DCHECK c d s) = consumption a s"
  by (simp add: consumption_def)

lemma limit_DCHECK [simp]: "limit a (DCHECK c d s) = limit a s"
  by (simp add: limit_def)

lemma has_limit_DCHECK [simp]: "has_limit a (DCHECK c d s) = has_limit a s"
  by (simp add: has_limit_def)

lemma consumption_update_consumption:
  "consumption a (update_consumption t f s) =
     (if a = t then current_value (f (consumption_f (trackers s t))) else consumption a s)"
  by (simp add: consumption_def trackers_update_consumption)

lemma consumption_add [simp]:
  "consumption a (update_consumption t (add delta) s) =
     (if a = t then consumption a s + delta else consumption a s)"
  unfolding consumption_def by (simp add: trackers_update_consumption add_def Let_def)

lemma limit_update_consumption [simp]: "limit a (update_consumption t f s) = limit a s"
  by (simp add: limit_def trackers_update_consumption)

lemma has_limit_update_consumption [simp]:
  "has_limit a (update_consumption t f s) = has_limit a s"
  by (simp add: has_limit_def trackers_update_consumption)



lemma same_structure_refl [simp]: "same_structure s s"
  by (simp add: same_structure_def)


lemma same_structure_DCHECK [simp]: "same_structure s (DCHECK c d s1) = same_structure s s1"
  by (simp add: same_structure_def)

lemma same_structure_update_consumption [simp]:
  "same_structure s (update_consumption t f s1) = same_structure s s1"
  by (auto simp add: same_structure_def trackers_update_consumption)



lemma limit_trackers_invariant_same_structure:
  "same_structure s s' \<Longrightarrow> limit_trackers_invariant t s' = limit_trackers_invariant t s"
  by (simp add: same_structure_def limit_trackers_invariant_def has_limit_def)

lemma count_list_distinct: "distinct xs \<Longrightarrow> count_list xs a = (if a \<in> set xs then 1 else 0)"
  by (induction xs) auto

lemma tracker_sel [simp]:
  "limit_f (tracker l p c m al li) = l" "parent_f (tracker l p c m al li) = p"
  "consumption_f (tracker l p c m al li) = \<lparr>current_value = c, peak_value = c\<rparr>"
  "consumption_metric_f (tracker l p c m al li) = m"
  "all_trackers_f (tracker l p c m al li) = al" "limit_trackers_f (tracker l p c m al li) = li"
  by (simp_all add: tracker_def)

lemma store_sel [simp]:
  "trackers (store ts) a = (case map_of ts a of None \<Rightarrow> tracker (- 1) None 0 None [] [] | Some t \<Rightarrow> t)"
  "dchecks (store ts) = []" "gc_calls (store ts) = []"
  by (simp_all add: store_def)

section \<open>\<^verbatim>\<open>consume\<close> and \<^verbatim>\<open>release\<close>\<close>

lemma consume_loop_consumption:
  "consumption a (consume_loop bytes chain s) =
     consumption a s + of_nat (count_list chain a) * bytes"
  by (induction chain arbitrary: s) (simp_all add: Let_def algebra_simps)

lemma release_loop_consumption:
  "consumption a (release_loop bytes chain s) =
     consumption a s - of_nat (count_list chain a) * bytes"
  by (induction chain arbitrary: s) (simp_all add: Let_def algebra_simps)

lemma consume_loop_structure: "same_structure s (consume_loop bytes chain s1) = same_structure s s1"
  by (induction chain arbitrary: s1) (simp_all add: Let_def)

lemma release_loop_structure: "same_structure s (release_loop bytes chain s1) = same_structure s s1"
  by (induction chain arbitrary: s1) (simp_all add: Let_def)

lemma consume_loop_gc_calls [simp]: "gc_calls (consume_loop bytes chain s) = gc_calls s"
  by (induction chain arbitrary: s) (simp_all add: Let_def)

lemma release_loop_gc_calls [simp]: "gc_calls (release_loop bytes chain s) = gc_calls s"
  by (induction chain arbitrary: s) (simp_all add: Let_def)

lemma consume_unfold:
  "consume t bytes s =
     (if bytes \<le>s 0 then (if bytes <s 0 then release t (- bytes) s else Some s)
      else if consumption_metric_f (trackers s t) \<noteq> None then
        Some (RefreshConsumptionFromMetric t s)
      else Some (consume_loop bytes (all_trackers_f (trackers s t)) s))"
  unfolding consume_def release_def
  by (subst consume_release.simps) simp

lemma release_unfold:
  "release t bytes s =
     (if bytes \<le>s 0 then (if bytes <s 0 then consume t (- bytes) s else Some s)
      else if consumption_metric_f (trackers s t) \<noteq> None then
        Some (RefreshConsumptionFromMetric t s)
      else Some (release_loop bytes (all_trackers_f (trackers s t)) s))"
  unfolding consume_def release_def
  by (subst consume_release.simps) simp

lemma consume_positive:
  assumes "0 <s bytes" "consumption_metric_f (trackers s t) = None"
  shows "consume t bytes s = Some (consume_loop bytes (all_trackers_f (trackers s t)) s)"
proof -
  from assms(1) have "\<not> bytes \<le>s 0" by (simp add: signed.not_le)
  with assms(2) show ?thesis by (simp add: consume_unfold)
qed

lemma release_positive:
  assumes "0 <s bytes" "consumption_metric_f (trackers s t) = None"
  shows "release t bytes s = Some (release_loop bytes (all_trackers_f (trackers s t)) s)"
proof -
  from assms(1) have "\<not> bytes \<le>s 0" by (simp add: signed.not_le)
  with assms(2) show ?thesis by (simp add: release_unfold)
qed

lemma consume_release_effect:
  "consume_release rel t b s = Some s' \<Longrightarrow>
   consumption_metric_f (trackers s t) = None \<longrightarrow>
     (\<forall>a. consumption a s' =
          consumption a s + of_nat (count_list (all_trackers_f (trackers s t)) a) * (if rel then - b else b)) \<and>
     same_structure s s' \<and> gc_calls s' = gc_calls s"
proof (induction rel t b s s' rule: consume_release.raw_induct[rotated, consumes 1, case_names 1])
  case (1 f is_release t bytes s s')
  show ?case
  proof (cases "bytes <s 0")
    case True
    then have "bytes \<le>s 0" by (simp add: word_sless_alt word_sle_eq)
    with True 1(2) have "f (\<not> is_release) t (- bytes) s = Some s'" by simp
    from 1(1)[OF this] show ?thesis by simp
  next
    case False
    show ?thesis
    proof (cases "bytes \<le>s 0")
      case True
      with False have "bytes = 0" by (simp add: signed.le_less)
      with 1(2) show ?thesis by simp
    next
      case False
      with 1(2) show ?thesis
        by (auto simp: consume_loop_consumption release_loop_consumption
            consume_loop_structure release_loop_structure split: if_splits)
    qed
  qed
qed

lemma consume_release_returns:
  assumes "b \<noteq> INT64_MIN"
  shows "\<exists>s'. consume_release rel t b s = Some s'"
proof (cases "b <s 0")
  case True
  then have le: "b \<le>s 0" by (simp add: word_sless_alt word_sle_eq)
  from neg_sless_0[OF True assms] have "\<not> (- b \<le>s 0)"
    by (simp add: word_sless_alt word_sle_eq)
  then have "\<exists>s'. consume_release (\<not> rel) t (- b) s = Some s'"
    by (subst consume_release.simps) simp
  with True le show ?thesis by (subst consume_release.simps) simp
next
  case False
  then show ?thesis by (subst consume_release.simps) simp
qed

lemma consume_release_INT64_MIN:
  "consume_release rel t b s = Some s' \<Longrightarrow> b \<noteq> INT64_MIN"
proof (induction rel t b s s' rule: consume_release.raw_induct[rotated, consumes 1, case_names 1])
  case (1 f is_release t bytes s s')
  show ?case
  proof (cases "bytes <s 0")
    case True
    then have "bytes \<le>s 0" by (simp add: word_sless_alt word_sle_eq)
    with True 1(2) have "f (\<not> is_release) t (- bytes) s = Some s'" by simp
    from 1(1)[OF this] have "- bytes \<noteq> INT64_MIN" .
    then show ?thesis by (auto simp: INT64_MIN_def)
  next
    case False
    then show ?thesis by (auto simp: INT64_MIN_def word_sless_alt)
  qed
qed

lemma consume_INT64_MIN: "consume t INT64_MIN s = None"
  using consume_release_INT64_MIN[of False t INT64_MIN s]
  by (cases "consume t INT64_MIN s") (auto simp: consume_def)

lemma release_INT64_MIN: "release t INT64_MIN s = None"
  using consume_release_INT64_MIN[of True t INT64_MIN s]
  by (cases "release t INT64_MIN s") (auto simp: release_def)

lemma consume_effect:
  assumes "consume t b s = Some s'" "consumption_metric_f (trackers s t) = None"
  shows "consumption a s' = consumption a s + of_nat (count_list (all_trackers_f (trackers s t)) a) * b"
    and "same_structure s s'" and "gc_calls s' = gc_calls s"
  using consume_release_effect[of False t b s s'] assms by (simp_all add: consume_def)

lemma release_effect:
  assumes "release t b s = Some s'" "consumption_metric_f (trackers s t) = None"
  shows "consumption a s' = consumption a s - of_nat (count_list (all_trackers_f (trackers s t)) a) * b"
    and "same_structure s s'" and "gc_calls s' = gc_calls s"
  using consume_release_effect[of True t b s s'] assms by (simp_all add: release_def)

lemma RefreshConsumptionFromMetric_root:
  assumes "consumption_metric_f (trackers s t) = Some v" "parent_f (trackers s t) = None"
  shows "RefreshConsumptionFromMetric t s = update_consumption t (set_value v) s"
  using assms by (simp add: RefreshConsumptionFromMetric_def Let_def)


lemma RefreshConsumptionFromMetric_frame [simp]:
  "gc_calls (RefreshConsumptionFromMetric t s) = gc_calls s"
  "all_trackers_f (trackers (RefreshConsumptionFromMetric t s) a) = all_trackers_f (trackers s a)"
  by (simp_all add: RefreshConsumptionFromMetric_def Let_def trackers_update_consumption
      split: option.splits)

subsection \<open>Balance\<close>

lemma run_ops_effect:
  "run_ops t ops s = Some s' \<Longrightarrow> consumption_metric_f (trackers s t) = None \<Longrightarrow>
   consumption a s' =
     consumption a s + of_nat (count_list (all_trackers_f (trackers s t)) a) *
       (sum_list (consumed ops) - sum_list (released ops))"
proof (induction t ops s rule: run_ops.induct)
  case (1 t s)
  then show ?case by simp
next
  case (2 t b ops s)
  from 2(2) obtain s1 where c: "consume t b s = Some s1" and r: "run_ops t ops s1 = Some s'"
    by (auto split: option.splits)
  from consume_effect[OF c 2(3)] have
    e: "consumption a s1 = consumption a s + of_nat (count_list (all_trackers_f (trackers s t)) a) * b"
    and st: "same_structure s s1" by auto
  from st 2(3) have m: "consumption_metric_f (trackers s1 t) = None"
    and ch: "all_trackers_f (trackers s1 t) = all_trackers_f (trackers s t)"
    by (simp_all add: same_structure_def)
  from 2(1)[OF c r m] e ch show ?case by (simp add: algebra_simps)
next
  case (3 t b ops s)
  from 3(2) obtain s1 where c: "release t b s = Some s1" and r: "run_ops t ops s1 = Some s'"
    by (auto split: option.splits)
  from release_effect[OF c 3(3)] have
    e: "consumption a s1 = consumption a s - of_nat (count_list (all_trackers_f (trackers s t)) a) * b"
    and st: "same_structure s s1" by auto
  from st 3(3) have m: "consumption_metric_f (trackers s1 t) = None"
    and ch: "all_trackers_f (trackers s1 t) = all_trackers_f (trackers s t)"
    by (simp_all add: same_structure_def)
  from 3(1)[OF c r m] e ch show ?case by (simp add: algebra_simps)
qed

lemma run_ops_returns:
  "INT64_MIN \<notin> set (consumed ops) \<union> set (released ops) \<Longrightarrow> \<exists>s'. run_ops t ops s = Some s'"
proof (induction t ops s rule: run_ops.induct)
  case (1 t s)
  then show ?case by simp
next
  case (2 t b ops s)
  then have "b \<noteq> INT64_MIN" by auto
  from consume_release_returns[OF this, of False t s] obtain s1 where c: "consume t b s = Some s1"
    by (auto simp: consume_def)
  with 2 show ?case by auto
next
  case (3 t b ops s)
  then have "b \<noteq> INT64_MIN" by auto
  from consume_release_returns[OF this, of True t s] obtain s1 where c: "release t b s = Some s1"
    by (auto simp: release_def)
  with 3 show ?case by auto
qed

text \<open>
  Claim C4. On a tracker without a consumption metric, every balanced sequence of
  \<^verbatim>\<open>consume\<close> and \<^verbatim>\<open>release\<close> calls, run in order, returns as long as no amount is
  \<open>INT64_MIN\<close>, and when it has returned the consumption of every tracker (the tracker
  itself, each of its ancestors, and every other tracker) is what it was before the
  sequence.
\<close>

theorem balance_round_trip:
  assumes "consumption_metric_f (trackers s t) = None" and "balanced ops"
  shows "(INT64_MIN \<notin> set (consumed ops) \<longrightarrow> run_ops t ops s \<noteq> None) \<and>
         (\<forall>s'. run_ops t ops s = Some s' \<longrightarrow> (\<forall>a. consumption a s' = consumption a s))"
proof -
  from assms(2) have m: "mset (consumed ops) = mset (released ops)" by (simp add: balanced_def)
  then have "set (consumed ops) = set (released ops)" by (rule mset_eq_setD)
  then have 1: "INT64_MIN \<notin> set (consumed ops) \<longrightarrow> run_ops t ops s \<noteq> None"
    using run_ops_returns[of ops t s] by auto
  have "sum_mset (mset (consumed ops)) = sum_mset (mset (released ops))" using m by simp
  then have "sum_list (consumed ops) = sum_list (released ops)" by (simp add: sum_mset_sum_list)
  then have 2: "\<forall>s'. run_ops t ops s = Some s' \<longrightarrow> (\<forall>a. consumption a s' = consumption a s)"
    using run_ops_effect[OF _ assms(1)] by simp
  from 1 2 show ?thesis by simp
qed

text \<open>
  Scenario S1: root (no limit) and child (no limit). \<^verbatim>\<open>child.consume(100)\<close> makes both
  consumptions 100, and \<^verbatim>\<open>child.release(100)\<close> after it returns both to zero.
\<close>

theorem balance_round_trip_witness:
  "consumption_metric_f (trackers scenario_S1 1) = None \<and> balanced [Consume 100, Release 100] \<and>
   map_option (consumption 1) (consume 1 100 scenario_S1) = Some 100 \<and>
   map_option (consumption 0) (consume 1 100 scenario_S1) = Some 100 \<and>
   map_option (consumption 1) (run_ops 1 [Consume 100, Release 100] scenario_S1) = Some 0 \<and>
   map_option (consumption 0) (run_ops 1 [Consume 100, Release 100] scenario_S1) = Some 0"
proof -
  have m: "consumption_metric_f (trackers scenario_S1 1) = None" by (simp add: scenario_S1_def)
  have b: "balanced [Consume 100, Release 100]" by (simp add: balanced_def)
  have c: "consume 1 100 scenario_S1 = Some (consume_loop 100 [1, 0] scenario_S1)"
    by (simp add: consume_unfold scenario_S1_def word_sle_eq del: consume_loop.simps)
  have z: "consumption 0 scenario_S1 = 0" "consumption 1 scenario_S1 = 0"
    by (simp_all add: scenario_S1_def consumption_def)
  have r: "run_ops 1 [Consume 100, Release 100] scenario_S1 \<noteq> None"
    using balance_round_trip[OF m b] by (simp add: INT64_MIN_def)
  then obtain s' where s': "run_ops 1 [Consume 100, Release 100] scenario_S1 = Some s'" by auto
  with balance_round_trip[OF m b] have "consumption 0 s' = 0" "consumption 1 s' = 0"
    using z by auto
  with s' m b c z show ?thesis by (simp add: consume_loop_consumption del: consume_loop.simps)
qed

subsection \<open>Sign handling\<close>

text \<open>
  Claim C5. \<^verbatim>\<open>consume(0)\<close> and \<^verbatim>\<open>release(0)\<close> return the state unchanged. On a negative
  argument \<^verbatim>\<open>consume(bytes)\<close> is \<^verbatim>\<open>release(-bytes)\<close> and \<^verbatim>\<open>release(bytes)\<close> is
  \<^verbatim>\<open>consume(-bytes)\<close>: same result, and the one returns exactly when the other does (on
  \<open>INT64_MIN\<close> neither returns). On a
  positive argument and a tracker without a consumption metric, \<^verbatim>\<open>consume\<close> returns and
  has added \<open>bytes\<close> to the counter once for every occurrence of a tracker in
  \<^verbatim>\<open>_all_trackers\<close>, whatever the limits are: in a chain without repetition every entry
  has gained \<open>bytes\<close> and no other counter has changed.
\<close>

theorem consume_release_sign_handling:
  "consume t 0 s = Some s \<and> release t 0 s = Some s \<and>
   (bytes <s 0 \<longrightarrow>
      consume t bytes s = release t (- bytes) s \<and> release t bytes s = consume t (- bytes) s) \<and>
   (0 <s bytes \<and> consumption_metric_f (trackers s t) = None \<longrightarrow>
      (\<exists>s'. consume t bytes s = Some s' \<and> same_structure s s' \<and>
         (\<forall>a. consumption a s' =
            consumption a s + of_nat (count_list (all_trackers_f (trackers s t)) a) * bytes) \<and>
         (distinct (all_trackers_f (trackers s t)) \<longrightarrow>
            (\<forall>a. consumption a s' =
               (if a \<in> set (all_trackers_f (trackers s t)) then consumption a s + bytes
                else consumption a s)))))"
proof -
  have z: "consume t 0 s = Some s" "release t 0 s = Some s"
    by (simp_all add: consume_unfold release_unfold)
  have n: "bytes <s 0 \<longrightarrow>
      consume t bytes s = release t (- bytes) s \<and> release t bytes s = consume t (- bytes) s"
  proof
    assume "bytes <s 0"
    then have "bytes \<le>s 0" by (rule signed.less_imp_le)
    with \<open>bytes <s 0\<close> show
      "consume t bytes s = release t (- bytes) s \<and> release t bytes s = consume t (- bytes) s"
      by (simp add: consume_unfold[of t bytes] release_unfold[of t bytes])
  qed
  have p: "0 <s bytes \<and> consumption_metric_f (trackers s t) = None \<longrightarrow>
      (\<exists>s'. consume t bytes s = Some s' \<and> same_structure s s' \<and>
         (\<forall>a. consumption a s' =
            consumption a s + of_nat (count_list (all_trackers_f (trackers s t)) a) * bytes) \<and>
         (distinct (all_trackers_f (trackers s t)) \<longrightarrow>
            (\<forall>a. consumption a s' =
               (if a \<in> set (all_trackers_f (trackers s t)) then consumption a s + bytes
                else consumption a s))))"
  proof
    assume a: "0 <s bytes \<and> consumption_metric_f (trackers s t) = None"
    let ?s' = "consume_loop bytes (all_trackers_f (trackers s t)) s"
    have "consume t bytes s = Some ?s'" using a by (simp add: consume_positive)
    moreover have "same_structure s ?s'" by (simp add: consume_loop_structure)
    moreover have "\<forall>a. consumption a ?s' =
            consumption a s + of_nat (count_list (all_trackers_f (trackers s t)) a) * bytes"
      by (simp add: consume_loop_consumption)
    moreover have "distinct (all_trackers_f (trackers s t)) \<longrightarrow>
            (\<forall>a. consumption a ?s' =
               (if a \<in> set (all_trackers_f (trackers s t)) then consumption a s + bytes
                else consumption a s))"
      by (simp add: consume_loop_consumption count_list_distinct)
    ultimately show "\<exists>s'. consume t bytes s = Some s' \<and> same_structure s s' \<and>
         (\<forall>a. consumption a s' =
            consumption a s + of_nat (count_list (all_trackers_f (trackers s t)) a) * bytes) \<and>
         (distinct (all_trackers_f (trackers s t)) \<longrightarrow>
            (\<forall>a. consumption a s' =
               (if a \<in> set (all_trackers_f (trackers s t)) then consumption a s + bytes
                else consumption a s)))"
      by blast
  qed
  from z n p show ?thesis by blast
qed

text \<open>
  At the tree of scenario S2 after 600 bytes were charged: a negative argument swaps the
  two operations, and \<^verbatim>\<open>child.consume(2000)\<close> brings root and child to 2600 although the
  root's limit is 1000.
\<close>

theorem consume_release_sign_handling_witness:
  "(- 100 :: int64) <s 0 \<and>
   consume 1 (- 100) scenario_S2_charged = release 1 100 scenario_S2_charged \<and>
   release 1 (- 100) scenario_S2_charged = consume 1 100 scenario_S2_charged \<and>
   (0 :: int64) <s 2000 \<and> consumption_metric_f (trackers scenario_S2_charged 1) = None \<and>
   distinct (all_trackers_f (trackers scenario_S2_charged 1)) \<and>
   limit 0 scenario_S2_charged = 1000 \<and>
   map_option (consumption 0) (consume 1 2000 scenario_S2_charged) = Some 2600 \<and>
   map_option (consumption 1) (consume 1 2000 scenario_S2_charged) = Some 2600"
proof -
  have h1: "(- 100 :: int64) <s 0" by (simp add: sint_eval)
  have h2: "(0 :: int64) <s 2000" by (simp add: sint_eval)
  have h3: "consumption_metric_f (trackers scenario_S2_charged 1) = None"
    and h4: "all_trackers_f (trackers scenario_S2_charged 1) = [1, 0]"
    and h5: "limit 0 scenario_S2_charged = 1000"
    and h6: "consumption 0 scenario_S2_charged = 600" "consumption 1 scenario_S2_charged = 600"
    by (simp_all add: scenario_S2_charged_def limit_def consumption_def)
  from consume_release_sign_handling[of 1 scenario_S2_charged "- 100"] h1
  have n: "consume 1 (- 100) scenario_S2_charged = release 1 100 scenario_S2_charged"
    "release 1 (- 100) scenario_S2_charged = consume 1 100 scenario_S2_charged" by simp_all
  from consume_release_sign_handling[of 1 scenario_S2_charged 2000] h2 h3 h4
  obtain s' where "consume 1 2000 scenario_S2_charged = Some s'"
    "\<forall>a. consumption a s' = (if a \<in> set [1, 0] then consumption a scenario_S2_charged + 2000
                               else consumption a scenario_S2_charged)"
    by auto
  with h1 h2 h3 h4 h5 h6 n show ?thesis by simp
qed

subsection \<open>External metric\<close>

text \<open>
  Claim C6. On a root tracker (no parent) with a consumption metric that reports \<open>v\<close>,
  \<^verbatim>\<open>consume(bytes)\<close> and \<^verbatim>\<open>release(bytes)\<close> with a positive argument return the same
  state: the tracker's counter is \<open>v\<close>, every other tracker object is untouched, no
  assertion is violated.
\<close>

theorem external_metric_isolation:
  assumes "consumption_metric_f (trackers s t) = Some v"
    and "parent_f (trackers s t) = None"
    and "0 <s bytes"
  shows "\<exists>s'. consume t bytes s = Some s' \<and> release t bytes s = Some s' \<and>
           consumption t s' = v \<and>
           (\<forall>a. a \<noteq> t \<longrightarrow> trackers s' a = trackers s a) \<and>
           same_structure s s' \<and> dchecks s' = dchecks s \<and> gc_calls s' = gc_calls s"
proof -
  let ?s' = "update_consumption t (set_value v) s"
  from assms(3) have nle: "\<not> bytes \<le>s 0" by (simp add: signed.not_le)
  have "consume t bytes s = Some ?s'" "release t bytes s = Some ?s'"
    using nle assms(1) RefreshConsumptionFromMetric_root[OF assms(1,2)]
    by (simp_all add: consume_unfold release_unfold)
  moreover have "consumption t ?s' = v"
    by (simp add: consumption_update_consumption set_value_def)
  moreover have "\<forall>a. a \<noteq> t \<longrightarrow> trackers ?s' a = trackers s a"
    by (simp add: trackers_update_consumption)
  ultimately show ?thesis by simp
qed

text \<open>
  A root with limit 1000 whose metric reports 500, and a child below it, all counters zero:
  after \<^verbatim>\<open>root.consume(100)\<close> or \<^verbatim>\<open>root.release(100)\<close> the root's counter is 500 and
  the child's is still zero.
\<close>

theorem external_metric_isolation_witness:
  "consumption_metric_f (trackers scenario_metric_root 0) = Some 500 \<and>
   parent_f (trackers scenario_metric_root 0) = None \<and> (0 :: int64) <s 100 \<and>
   consumption 0 scenario_metric_root = 0 \<and>
   map_option (consumption 0) (consume 0 100 scenario_metric_root) = Some 500 \<and>
   map_option (consumption 0) (release 0 100 scenario_metric_root) = Some 500 \<and>
   map_option (consumption 1) (consume 0 100 scenario_metric_root) = Some 0 \<and>
   map_option (consumption 1) (release 0 100 scenario_metric_root) = Some 0"
proof -
  have h1: "consumption_metric_f (trackers scenario_metric_root 0) = Some 500"
    and h2: "parent_f (trackers scenario_metric_root 0) = None"
    and h4: "consumption 0 scenario_metric_root = 0"
    and h5: "consumption_f (trackers scenario_metric_root 1) = \<lparr>current_value = 0, peak_value = 0\<rparr>"
    by (simp_all add: scenario_metric_root_def consumption_def)
  have h3: "(0 :: int64) <s 100" by (simp add: sint_eval)
  from external_metric_isolation[OF h1 h2 h3] obtain s' where
    "consume 0 100 scenario_metric_root = Some s'" "release 0 100 scenario_metric_root = Some s'"
    "consumption 0 s' = 500" "trackers s' 1 = trackers scenario_metric_root 1"
    by auto
  with h1 h2 h3 h4 h5 show ?thesis by (simp add: consumption_def)
qed

section \<open>\<^verbatim>\<open>consume_local\<close>\<close>

lemma consume_local_loop_dchecks:
  "\<exists>new. dchecks (consume_local_loop bytes e chain s) = dchecks s @ new \<and>
     (End_tracker_is_not_an_ancestor \<in> set new \<longleftrightarrow> e \<notin> Some ` set chain)"
proof (induction chain arbitrary: s)
  case Nil
  show ?case by (simp add: dchecks_DCHECK)
next
  case (Cons x xs)
  show ?case
  proof (cases "Some x = e")
    case True
    then show ?thesis by auto
  next
    case False
    let ?s1 = "DCHECK (\<not> has_limit x s) (Not_has_limit x) s"
    let ?s2 = "update_consumption x (add bytes) ?s1"
    from Cons[of ?s2] obtain new where
      n: "dchecks (consume_local_loop bytes e xs ?s2) = dchecks ?s2 @ new"
         "End_tracker_is_not_an_ancestor \<in> set new \<longleftrightarrow> e \<notin> Some ` set xs"
      by blast
    obtain pre where p: "dchecks ?s2 = dchecks s @ pre" "End_tracker_is_not_an_ancestor \<notin> set pre"
      by (cases "has_limit x s") (simp_all add: dchecks_DCHECK)
    have "dchecks (consume_local_loop bytes e (x # xs) s) = dchecks s @ (pre @ new)"
      using False n(1) p(1) by (simp add: Let_def)
    moreover have "End_tracker_is_not_an_ancestor \<in> set (pre @ new) \<longleftrightarrow> e \<notin> Some ` set (x # xs)"
      using False n(2) p(2) by auto
    ultimately show ?thesis by blast
  qed
qed

lemma consume_local_loop_consumption:
  "consumption a (consume_local_loop bytes e chain s) =
     consumption a s + of_nat (count_list (takeWhile (\<lambda>x. Some x \<noteq> e) chain) a) * bytes"
  by (induction chain arbitrary: s) (simp_all add: Let_def algebra_simps)

lemma consume_local_loop_structure:
  "same_structure s (consume_local_loop bytes e chain s1) = same_structure s s1"
  by (induction chain arbitrary: s1) (simp_all add: Let_def)

text \<open>
  Claim C8. The assertions that a call of \<^verbatim>\<open>consume_local\<close> violates contain
  \<^verbatim>\<open>"end_tracker is not an ancestor"\<close> exactly when \<^verbatim>\<open>end_tracker\<close> is not an entry of
  \<^verbatim>\<open>_all_trackers\<close>: when it is an entry the call leaves by the early \<^verbatim>\<open>return\<close> and
  never reaches that assertion. In both cases \<open>bytes\<close> has been added once for every
  occurrence of a tracker before the first occurrence of \<^verbatim>\<open>end_tracker\<close> (the whole chain
  when it is absent); in a chain without repetition these are the entries strictly before
  \<^verbatim>\<open>end_tracker\<close>, and no other counter changes. (What a debug build does when another
  assertion fails first is \<open>consume_local_debug_abort\<close> below.)
\<close>

theorem consume_local_end_tracker:
  "\<exists>new. dchecks (consume_local t bytes end_tracker s) = dchecks s @ new \<and>
     (End_tracker_is_not_an_ancestor \<in> set new \<longleftrightarrow>
        end_tracker \<notin> Some ` set (all_trackers_f (trackers s t))) \<and>
     (\<forall>a. consumption a (consume_local t bytes end_tracker s) =
        consumption a s +
        of_nat (count_list (takeWhile (\<lambda>x. Some x \<noteq> end_tracker) (all_trackers_f (trackers s t))) a)
          * bytes) \<and>
     (distinct (all_trackers_f (trackers s t)) \<longrightarrow>
        (\<forall>a. consumption a (consume_local t bytes end_tracker s) =
           (if a \<in> set (takeWhile (\<lambda>x. Some x \<noteq> end_tracker) (all_trackers_f (trackers s t)))
            then consumption a s + bytes else consumption a s)))"
proof -
  let ?chain = "all_trackers_f (trackers s t)"
  let ?s1 = "DCHECK (consumption_metric_f (trackers s t) = None) Should_not_be_called_on_root s"
  have eq: "consume_local t bytes end_tracker s = consume_local_loop bytes end_tracker ?chain ?s1"
    by (simp add: consume_local_def Let_def)
  from consume_local_loop_dchecks[of bytes end_tracker ?chain ?s1] obtain new where
    n: "dchecks (consume_local_loop bytes end_tracker ?chain ?s1) = dchecks ?s1 @ new"
       "End_tracker_is_not_an_ancestor \<in> set new \<longleftrightarrow> end_tracker \<notin> Some ` set ?chain"
    by blast
  obtain pre where p: "dchecks ?s1 = dchecks s @ pre" "End_tracker_is_not_an_ancestor \<notin> set pre"
    by (cases "consumption_metric_f (trackers s t) = None") (simp_all add: dchecks_DCHECK)
  have d: "dchecks (consume_local t bytes end_tracker s) = dchecks s @ (pre @ new)"
    using eq n(1) p(1) by simp
  have e: "End_tracker_is_not_an_ancestor \<in> set (pre @ new) \<longleftrightarrow> end_tracker \<notin> Some ` set ?chain"
    using n(2) p(2) by auto
  have c: "\<forall>a. consumption a (consume_local t bytes end_tracker s) =
        consumption a s +
        of_nat (count_list (takeWhile (\<lambda>x. Some x \<noteq> end_tracker) ?chain) a) * bytes"
    unfolding eq by (simp add: consume_local_loop_consumption)
  have "distinct ?chain \<longrightarrow> distinct (takeWhile (\<lambda>x. Some x \<noteq> end_tracker) ?chain)"
    by (simp add: distinct_takeWhile)
  with c have c': "distinct ?chain \<longrightarrow>
        (\<forall>a. consumption a (consume_local t bytes end_tracker s) =
           (if a \<in> set (takeWhile (\<lambda>x. Some x \<noteq> end_tracker) ?chain)
            then consumption a s + bytes else consumption a s))"
    by (simp add: count_list_distinct)
  from d e c c' show ?thesis by blast
qed

text \<open>
  Scenario S6 after \<^verbatim>\<open>A.consume(50)\<close>: root at 0, A at 1, B at 2.
  \<^verbatim>\<open>B.consume_local(50, root)\<close> stops at the root and violates no assertion;
  \<^verbatim>\<open>B.consume_local(50, A)\<close>, with A not an ancestor of B, runs through the whole chain
  and reaches the assertion.
\<close>

theorem consume_local_end_tracker_witness:
  "distinct (all_trackers_f (trackers scenario_S6 2)) \<and>
   Some 0 \<in> Some ` set (all_trackers_f (trackers scenario_S6 2)) \<and>
   dchecks (consume_local 2 50 (Some 0) scenario_S6) = [] \<and>
   consumption 2 (consume_local 2 50 (Some 0) scenario_S6) = 50 \<and>
   consumption 0 (consume_local 2 50 (Some 0) scenario_S6) = 50 \<and>
   Some 1 \<notin> Some ` set (all_trackers_f (trackers scenario_S6 2)) \<and>
   dchecks (consume_local 2 50 (Some 1) scenario_S6) = [End_tracker_is_not_an_ancestor] \<and>
   consumption 2 (consume_local 2 50 (Some 1) scenario_S6) = 50 \<and>
   consumption 0 (consume_local 2 50 (Some 1) scenario_S6) = 100"
proof -
  have ch: "all_trackers_f (trackers scenario_S6 2) = [2, 0]"
    and v: "consumption 0 scenario_S6 = 50" "consumption 2 scenario_S6 = 0"
    and d: "dchecks scenario_S6 = []"
    by (simp_all add: scenario_S6_def consumption_def)
  have d1: "dchecks (consume_local 2 50 (Some 0) scenario_S6) = []"
    and d2: "dchecks (consume_local 2 50 (Some 1) scenario_S6) = [End_tracker_is_not_an_ancestor]"
    by (simp_all add: consume_local_def scenario_S6_def Let_def DCHECK_def has_limit_def
        update_consumption_def sint_eval)
  from consume_local_end_tracker[of 2 50 "Some 0" scenario_S6] ch v
  have a: "consumption 2 (consume_local 2 50 (Some 0) scenario_S6) = 50"
    "consumption 0 (consume_local 2 50 (Some 0) scenario_S6) = 50" by auto
  from consume_local_end_tracker[of 2 50 "Some 1" scenario_S6] ch v
  have b: "consumption 2 (consume_local 2 50 (Some 1) scenario_S6) = 50"
    "consumption 0 (consume_local 2 50 (Some 1) scenario_S6) = 100" by auto
  from ch d1 d2 a b show ?thesis by simp
qed

subsection \<open>Debug builds\<close>

text \<open>
  The assertions a call of \<^verbatim>\<open>consume_local\<close> violates, in order: the one on the metric,
  then one for every tracker with a limit before \<^verbatim>\<open>end_tracker\<close>, then the one after the
  loop. A debug build aborts at the first of them, so it aborts at
  \<^verbatim>\<open>"end_tracker is not an ancestor"\<close> exactly when \<^verbatim>\<open>end_tracker\<close> is absent and the
  other two preconditions of the operation hold.
\<close>

lemma consume_local_loop_dchecks_exact:
  "dchecks (consume_local_loop bytes e chain s) =
     dchecks s @
     concat (map (\<lambda>a. if has_limit a s then [Not_has_limit a] else [])
                 (takeWhile (\<lambda>x. Some x \<noteq> e) chain)) @
     (if e \<in> Some ` set chain then [] else [End_tracker_is_not_an_ancestor])"
proof (induction chain arbitrary: s)
  case Nil
  show ?case by (simp add: dchecks_DCHECK)
next
  case (Cons x xs)
  show ?case
  proof (cases "Some x = e")
    case True
    then show ?thesis by auto
  next
    case False
    let ?s2 = "update_consumption x (add bytes) (DCHECK (\<not> has_limit x s) (Not_has_limit x) s)"
    have h: "has_limit a ?s2 = has_limit a s" for a by simp
    have d: "dchecks ?s2 = dchecks s @ (if has_limit x s then [Not_has_limit x] else [])"
      by (simp add: dchecks_DCHECK)
    from False have "consume_local_loop bytes e (x # xs) s = consume_local_loop bytes e xs ?s2"
      by (simp add: Let_def)
    moreover have "dchecks (consume_local_loop bytes e xs ?s2) =
       dchecks ?s2 @
       concat (map (\<lambda>a. if has_limit a s then [Not_has_limit a] else [])
                   (takeWhile (\<lambda>x. Some x \<noteq> e) xs)) @
       (if e \<in> Some ` set xs then [] else [End_tracker_is_not_an_ancestor])"
      using Cons[of ?s2] by (simp only: h)
    ultimately show ?thesis using False d by auto
  qed
qed

lemma consume_local_dchecks:
  "dchecks (consume_local t bytes e s) =
     dchecks s @
     (if consumption_metric_f (trackers s t) = None then [] else [Should_not_be_called_on_root]) @
     concat (map (\<lambda>a. if has_limit a s then [Not_has_limit a] else [])
                 (takeWhile (\<lambda>x. Some x \<noteq> e) (all_trackers_f (trackers s t)))) @
     (if e \<in> Some ` set (all_trackers_f (trackers s t)) then []
      else [End_tracker_is_not_an_ancestor])"
  by (simp add: consume_local_def Let_def consume_local_loop_dchecks_exact dchecks_DCHECK)

lemma concat_no_limit:
  "concat (map (\<lambda>a. if has_limit a s then [Not_has_limit a] else []) xs) = [] \<longleftrightarrow>
     (\<forall>a\<in>set xs. \<not> has_limit a s)"
  by (induction xs) auto

lemma consume_local_debug_abort:
  "take 1 (drop (length (dchecks s)) (dchecks (consume_local t bytes e s))) =
     [End_tracker_is_not_an_ancestor] \<longleftrightarrow>
   e \<notin> Some ` set (all_trackers_f (trackers s t)) \<and>
   consumption_metric_f (trackers s t) = None \<and>
   (\<forall>a\<in>set (all_trackers_f (trackers s t)). \<not> has_limit a s)"
proof -
  let ?chain = "all_trackers_f (trackers s t)"
  let ?mid = "concat (map (\<lambda>a. if has_limit a s then [Not_has_limit a] else [])
                 (takeWhile (\<lambda>x. Some x \<noteq> e) ?chain))"
  have tw: "e \<notin> Some ` set ?chain \<Longrightarrow> takeWhile (\<lambda>x. Some x \<noteq> e) ?chain = ?chain"
    by (rule takeWhile_eq_all_conv[THEN iffD2]) auto
  show ?thesis
  proof (cases "consumption_metric_f (trackers s t) = None")
    case False
    then show ?thesis by (auto simp: consume_local_dchecks)
  next
    case True
    show ?thesis
    proof (cases "?mid = []")
      case False
      then obtain y ys where y: "?mid = y # ys" by (cases ?mid) auto
      then have "y \<in> set ?mid" by simp
      then have "y \<noteq> End_tracker_is_not_an_ancestor" by (auto split: if_splits)
      with y True have l: "take 1 (drop (length (dchecks s)) (dchecks (consume_local t bytes e s)))
          \<noteq> [End_tracker_is_not_an_ancestor]"
        by (simp add: consume_local_dchecks)
      from False obtain a where "a \<in> set (takeWhile (\<lambda>x. Some x \<noteq> e) ?chain)" "has_limit a s"
        by (auto simp: concat_no_limit)
      then have "\<not> (\<forall>a\<in>set ?chain. \<not> has_limit a s)" by (auto dest: set_takeWhileD)
      with l show ?thesis by simp
    next
      case e: True
      have dd: "dchecks (consume_local t bytes e s) =
          dchecks s @ (if e \<in> Some ` set ?chain then [] else [End_tracker_is_not_an_ancestor])"
        by (subst consume_local_dchecks, subst e) (simp add: True)
      show ?thesis
      proof (cases "e \<in> Some ` set ?chain")
        case True
        then show ?thesis by (simp add: dd)
      next
        case False
        from e have "\<forall>a\<in>set (takeWhile (\<lambda>x. Some x \<noteq> e) ?chain). \<not> has_limit a s"
          by (simp only: concat_no_limit)
        then have "\<forall>a\<in>set ?chain. \<not> has_limit a s" unfolding tw[OF False] .
        with False \<open>consumption_metric_f (trackers s t) = None\<close> show ?thesis
          by (simp add: dd)
      qed
    qed
  qed
qed

section \<open>Queries over the limited chain\<close>

lemma spare_capacity_loop_min:
  "spare_capacity_loop chain s r \<le>s r \<and>
   (\<forall>a\<in>set chain. spare_capacity_loop chain s r \<le>s limit a s - consumption a s) \<and>
   (spare_capacity_loop chain s r = r \<or>
    (\<exists>a\<in>set chain. spare_capacity_loop chain s r = limit a s - consumption a s))"
proof (induction chain arbitrary: r)
  case Nil
  show ?case by simp
next
  case (Cons x xs)
  let ?m = "limit x s - consumption x s"
  let ?r = "spare_capacity_loop xs s (std_min r ?m)"
  have eq: "spare_capacity_loop (x # xs) s r = ?r" by (simp add: Let_def)
  from Cons[of "std_min r ?m"] have
    a: "?r \<le>s std_min r ?m" and b: "\<forall>a\<in>set xs. ?r \<le>s limit a s - consumption a s"
    and c: "?r = std_min r ?m \<or> (\<exists>a\<in>set xs. ?r = limit a s - consumption a s)" by auto
  from a std_min_sle[of r ?m] have "?r \<le>s r" "?r \<le>s ?m"
    by (auto simp: word_sle_eq)
  moreover have "?r = r \<or> (\<exists>a\<in>set (x # xs). ?r = limit a s - consumption a s)"
    using c by (auto simp: std_min_def split: if_splits)
  ultimately show ?case using b unfolding eq by simp
qed

lemma spare_capacity_Min:
  assumes "limit_trackers_f (trackers s t) \<noteq> []"
    and "\<forall>a\<in>set (limit_trackers_f (trackers s t)). 0 \<le>s limit a s \<and> 0 \<le>s consumption a s"
  shows "sint (spare_capacity t s) =
           Min ((\<lambda>a. sint (limit a s) - sint (consumption a s)) ` set (limit_trackers_f (trackers s t)))"
proof -
  let ?lt = "limit_trackers_f (trackers s t)"
  let ?r = "spare_capacity t s"
  from spare_capacity_loop_min[of ?lt s INT64_MAX] have
    le: "\<forall>a\<in>set ?lt. ?r \<le>s limit a s - consumption a s"
    and ex: "?r = INT64_MAX \<or> (\<exists>a\<in>set ?lt. ?r = limit a s - consumption a s)"
    by (simp_all add: spare_capacity_def)
  from assms(1) obtain x where x: "x \<in> set ?lt" by (cases ?lt) auto
  have "\<exists>a\<in>set ?lt. ?r = limit a s - consumption a s"
  proof (cases "?r = INT64_MAX")
    case True
    from le x have "INT64_MAX \<le>s limit x s - consumption x s" using True by auto
    with sle_INT64_MAX[of "limit x s - consumption x s"]
    have "limit x s - consumption x s = INT64_MAX" by (rule signed.order_antisym)
    with True have "?r = limit x s - consumption x s" by simp
    with x show ?thesis by blast
  next
    case False
    with ex show ?thesis by simp
  qed
  then obtain y where y: "y \<in> set ?lt" "?r = limit y s - consumption y s" by blast
  have d: "sint (limit a s - consumption a s) = sint (limit a s) - sint (consumption a s)"
    if "a \<in> set ?lt" for a using assms(2) that by (simp add: sint_sub_nonneg)
  have "Min ((\<lambda>a. sint (limit a s) - sint (consumption a s)) ` set ?lt) = sint ?r"
  proof (rule Min_eqI)
    show "finite ((\<lambda>a. sint (limit a s) - sint (consumption a s)) ` set ?lt)" by simp
    show "sint ?r \<in> (\<lambda>a. sint (limit a s) - sint (consumption a s)) ` set ?lt"
      using y d[OF y(1)] by auto
    fix v assume "v \<in> (\<lambda>a. sint (limit a s) - sint (consumption a s)) ` set ?lt"
    then obtain a where a: "a \<in> set ?lt" "v = sint (limit a s) - sint (consumption a s)" by auto
    from le a(1) have "sint ?r \<le> sint (limit a s - consumption a s)" by (simp add: sint_eval)
    with d[OF a(1)] a(2) show "sint ?r \<le> v" by simp
  qed
  then show ?thesis by simp
qed

text \<open>
  Claim C9. \<^verbatim>\<open>spare_capacity()\<close> is \<open>INT64_MAX\<close> when \<^verbatim>\<open>_limit_trackers\<close> is empty.
  Otherwise it is the minimum, in the signed order, of \<^verbatim>\<open>limit() - consumption()\<close> over
  the entries of \<^verbatim>\<open>_limit_trackers\<close> (the difference computed in \<^verbatim>\<open>int64_t\<close>): it is the
  value at one entry and at most the value at every entry. It is negative as soon as the
  limit of one entry is exceeded. When the limits and consumptions of the entries are not
  negative the differences do not wrap, and the result is the minimum of the integer
  differences.
\<close>

theorem spare_capacity_minimum:
  "(limit_trackers_f (trackers s t) = [] \<longrightarrow> spare_capacity t s = INT64_MAX) \<and>
   (limit_trackers_f (trackers s t) \<noteq> [] \<longrightarrow>
      (\<exists>a\<in>set (limit_trackers_f (trackers s t)).
          spare_capacity t s = limit a s - consumption a s) \<and>
      (\<forall>a\<in>set (limit_trackers_f (trackers s t)).
          spare_capacity t s \<le>s limit a s - consumption a s)) \<and>
   ((\<exists>a\<in>set (limit_trackers_f (trackers s t)). limit_exceeded a s) \<longrightarrow>
      spare_capacity t s <s 0) \<and>
   (limit_trackers_f (trackers s t) \<noteq> [] \<and>
    (\<forall>a\<in>set (limit_trackers_f (trackers s t)). 0 \<le>s limit a s \<and> 0 \<le>s consumption a s) \<longrightarrow>
      sint (spare_capacity t s) =
        Min ((\<lambda>a. sint (limit a s) - sint (consumption a s)) `
             set (limit_trackers_f (trackers s t))))"
proof -
  let ?lt = "limit_trackers_f (trackers s t)"
  let ?r = "spare_capacity t s"
  from spare_capacity_loop_min[of ?lt s INT64_MAX] have
    le: "\<forall>a\<in>set ?lt. ?r \<le>s limit a s - consumption a s"
    and ex: "?r = INT64_MAX \<or> (\<exists>a\<in>set ?lt. ?r = limit a s - consumption a s)"
    by (simp_all add: spare_capacity_def)
  have 1: "?lt = [] \<longrightarrow> ?r = INT64_MAX" by (simp add: spare_capacity_def)
  have 2: "?lt \<noteq> [] \<longrightarrow> (\<exists>a\<in>set ?lt. ?r = limit a s - consumption a s)"
  proof
    assume "?lt \<noteq> []"
    then obtain x where x: "x \<in> set ?lt" by (cases ?lt) auto
    show "\<exists>a\<in>set ?lt. ?r = limit a s - consumption a s"
    proof (cases "?r = INT64_MAX")
      case True
      from le x have "INT64_MAX \<le>s limit x s - consumption x s" using True by auto
      with sle_INT64_MAX[of "limit x s - consumption x s"]
      have "limit x s - consumption x s = INT64_MAX" by (rule signed.order_antisym)
      with True have "?r = limit x s - consumption x s" by simp
      with x show ?thesis by blast
    next
      case False
      with ex show ?thesis by simp
    qed
  qed
  have 3: "(\<exists>a\<in>set ?lt. limit_exceeded a s) \<longrightarrow> ?r <s 0"
  proof
    assume "\<exists>a\<in>set ?lt. limit_exceeded a s"
    then obtain a where a: "a \<in> set ?lt" "limit_exceeded a s" by auto
    from a(2) have "limit a s - consumption a s <s 0"
      by (simp add: limit_exceeded_def limit_def exceeded_mem_left_negative)
    with le a(1) show "?r <s 0" by (auto simp: word_sle_eq word_sless_alt)
  qed
  have 4: "?lt \<noteq> [] \<and> (\<forall>a\<in>set ?lt. 0 \<le>s limit a s \<and> 0 \<le>s consumption a s) \<longrightarrow>
      sint ?r = Min ((\<lambda>a. sint (limit a s) - sint (consumption a s)) ` set ?lt)"
    using spare_capacity_Min[of s t] by blast
  from 1 2 3 4 le show ?thesis by blast
qed

text \<open>
  With no limit on the chain the result is \<open>INT64_MAX\<close>; with root (limit 1000,
  consumption 1100) and mid (limit 300, consumption 100) above the leaf it is
  \<open>min (300 - 100) (1000 - 1100) = - 100\<close>.
\<close>

theorem spare_capacity_minimum_witness:
  "limit_trackers_f (trackers scenario_S1 1) = [] \<and> spare_capacity 1 scenario_S1 = INT64_MAX \<and>
   limit_trackers_f (trackers scenario_exceeded 2) = [1, 0] \<and>
   limit_exceeded 0 scenario_exceeded \<and>
   spare_capacity 2 scenario_exceeded = - 100 \<and> spare_capacity 2 scenario_exceeded <s 0 \<and>
   (0 :: int64) \<le>s 1000 \<and> (0 :: int64) \<le>s 1100 \<and> (0 :: int64) \<le>s 300 \<and> (0 :: int64) \<le>s 100 \<and>
   sint (spare_capacity 2 scenario_exceeded) = Min {200, - 100}"
proof -
  have e: "limit_trackers_f (trackers scenario_S1 1) = []" by (simp add: scenario_S1_def)
  have l: "limit_trackers_f (trackers scenario_exceeded 2) = [1, 0]"
    by (simp add: scenario_exceeded_def)
  have x: "limit_exceeded 0 scenario_exceeded"
    by (simp add: scenario_exceeded_def limit_exceeded_def consumption_def sint_eval)
  have v: "spare_capacity 2 scenario_exceeded = - 100"
    by (simp add: spare_capacity_def scenario_exceeded_def limit_def consumption_def
        std_min_def INT64_MAX_def Let_def sint_eval)
  from spare_capacity_minimum[of scenario_S1 1] e
  have "spare_capacity 1 scenario_S1 = INT64_MAX" by simp
  moreover from spare_capacity_minimum[of scenario_exceeded 2] l x
  have "spare_capacity 2 scenario_exceeded <s 0" by simp
  moreover have n: "(0 :: int64) \<le>s 1000" "(0 :: int64) \<le>s 1100" "(0 :: int64) \<le>s 300"
    "(0 :: int64) \<le>s 100" by (simp_all add: sint_eval)
  moreover have lc: "limit 0 scenario_exceeded = 1000" "consumption 0 scenario_exceeded = 1100"
    "limit 1 scenario_exceeded = 300" "consumption 1 scenario_exceeded = 100"
    by (simp_all add: scenario_exceeded_def limit_def consumption_def)
  from spare_capacity_minimum[of scenario_exceeded 2] l n lc
  have "sint (spare_capacity 2 scenario_exceeded) = Min {200, - 100}" by simp
  ultimately show ?thesis using e l x v by simp
qed

subsection \<open>\<^verbatim>\<open>set_limit\<close> and \<^verbatim>\<open>_limit_trackers\<close>\<close>

text \<open>
  Construction establishes what the field comment says, and the trees of the scenarios are
  what the constructors build. Every operation that leaves the structure alone keeps it,
  and so does \<^verbatim>\<open>set_limit\<close> as long as the new limit has the sign of the old one.
\<close>

lemma Init_walk_filter:
  "Init_walk s p al li = Some (al', li') \<Longrightarrow>
   li = filter (\<lambda>a. has_limit a s) al \<longrightarrow> li' = filter (\<lambda>a. has_limit a s) al'"
proof (induction s p al li "(al', li')" rule: Init_walk.raw_induct[rotated, consumes 1, case_names 1])
  case (1 f s p al li)
  show ?case
  proof (cases p)
    case None
    with 1(2) show ?thesis by simp
  next
    case (Some a)
    with 1(2) have "f s (parent_f (trackers s a)) (al @ [a])
            (if has_limit a s then li @ [a] else li) = Some (al', li')" by simp
    from 1(1)[OF this] show ?thesis by auto
  qed
qed

lemma Init_limit_trackers_invariant:
  assumes "Init this s = Some s'"
  shows "limit_trackers_invariant this s'"
proof -
  from assms obtain al li where w: "Init_walk s (Some this) [] [] = Some (al, li)"
    and s': "s' = s\<lparr>trackers := (trackers s)
                  (this := (trackers s this)\<lparr>all_trackers_f := al, limit_trackers_f := li\<rparr>)\<rparr>"
    by (auto simp: Init_def split: option.splits)
  from Init_walk_filter[OF w] have "li = filter (\<lambda>a. has_limit a s) al" by simp
  moreover have "has_limit a s' = has_limit a s" for a by (simp add: s' has_limit_def)
  ultimately show ?thesis by (simp add: limit_trackers_invariant_def s')
qed

lemma MemTracker_new_limit_trackers_invariant:
  "MemTracker_new this byte_limit parent s = Some s' \<Longrightarrow> limit_trackers_invariant this s'"
  unfolding MemTracker_new_def by (rule Init_limit_trackers_invariant)

lemma set_limit_same_sign:
  assumes "0 \<le>s new_limit \<longleftrightarrow> has_limit t s"
  shows "limit_trackers_invariant a (set_limit t new_limit s) = limit_trackers_invariant a s"
proof -
  have "has_limit x (set_limit t new_limit s) = has_limit x s" for x
    using assms by (simp add: has_limit_def set_limit_def)
  then show ?thesis by (simp add: limit_trackers_invariant_def set_limit_def)
qed

lemma Init_walk_None [simp]: "Init_walk s None al li = Some (al, li)"
  by (subst Init_walk.simps) simp

lemma Init_walk_Some [simp]:
  "Init_walk s (Some a) al li =
     Init_walk s (parent_f (trackers s a)) (al @ [a]) (if has_limit a s then li @ [a] else li)"
  by (subst Init_walk.simps) simp

lemma scenario_S2_constructed:
  "Option.bind (MemTracker_new 0 1000 None (store [])) (MemTracker_new 1 (- 1) (Some 0)) =
     Some scenario_S2"
  by (simp add: MemTracker_new_def Init_def has_limit_def scenario_S2_def store_def tracker_def
      sint_eval fun_eq_iff)

lemma scenario_S1_constructed:
  "Option.bind (MemTracker_new 0 (- 1) None (store [])) (MemTracker_new 1 (- 1) (Some 0)) =
     Some scenario_S1"
  by (simp add: MemTracker_new_def Init_def has_limit_def scenario_S1_def store_def tracker_def
      sint_eval fun_eq_iff)

lemma scenario_S3_constructed:
  "Option.bind (Option.bind (MemTracker_new 0 1000 None (store [])) (MemTracker_new 1 300 (Some 0)))
     (MemTracker_new 2 (- 1) (Some 1)) = Some scenario_S3"
  by (simp add: MemTracker_new_def Init_def has_limit_def scenario_S3_def store_def tracker_def
      sint_eval fun_eq_iff)

text \<open>
  Claim C7 fails on the code: \<^verbatim>\<open>set_limit\<close> assigns \<^verbatim>\<open>_limit\<close> and leaves every
  \<^verbatim>\<open>_limit_trackers\<close> as it is. A tracker built without a limit and then given the limit
  100 is still absent from its own \<^verbatim>\<open>_limit_trackers\<close>: after \<^verbatim>\<open>consume(200)\<close> its limit
  is exceeded, but \<^verbatim>\<open>any_limit_exceeded()\<close> is false, \<^verbatim>\<open>find_limit_exceeded_tracker()\<close>
  is null and \<^verbatim>\<open>spare_capacity()\<close> is \<open>INT64_MAX\<close>. A tracker built with the limit 1000
  and then set to \<open>- 1\<close> stays in \<^verbatim>\<open>_limit_trackers\<close>, and \<^verbatim>\<open>lowest_limit()\<close> violates
  its own \<^verbatim>\<open>DCHECK(_limit_trackers[i]->has_limit())\<close>.
\<close>

theorem set_limit_breaks_limit_trackers:
  "limit_trackers_invariant 0 scenario_S1 \<and>
   \<not> limit_trackers_invariant 0 (set_limit 0 100 scenario_S1) \<and>
   map_option (limit_exceeded 0) (consume 0 200 (set_limit 0 100 scenario_S1)) = Some True \<and>
   map_option (any_limit_exceeded 0) (consume 0 200 (set_limit 0 100 scenario_S1)) = Some False \<and>
   map_option (find_limit_exceeded_tracker 0) (consume 0 200 (set_limit 0 100 scenario_S1)) = Some None \<and>
   map_option (spare_capacity 0) (consume 0 200 (set_limit 0 100 scenario_S1)) = Some INT64_MAX \<and>
   limit_trackers_invariant 0 scenario_S2 \<and>
   \<not> limit_trackers_invariant 0 (set_limit 0 (- 1) scenario_S2) \<and>
   lowest_limit 0 (set_limit 0 (- 1) scenario_S2) =
     (- 1, (set_limit 0 (- 1) scenario_S2)\<lparr>dchecks := [Limit_tracker_has_limit 0]\<rparr>)"
proof -
  have 1: "limit_trackers_invariant 0 scenario_S1"
    "\<not> limit_trackers_invariant 0 (set_limit 0 100 scenario_S1)"
    "limit_trackers_invariant 0 scenario_S2"
    "\<not> limit_trackers_invariant 0 (set_limit 0 (- 1) scenario_S2)"
    by (simp_all add: limit_trackers_invariant_def scenario_S1_def scenario_S2_def set_limit_def
        has_limit_def sint_eval)
  have c: "consume 0 200 (set_limit 0 100 scenario_S1) =
             Some (consume_loop 200 [0] (set_limit 0 100 scenario_S1))"
    by (simp add: consume_unfold set_limit_def scenario_S1_def sint_eval del: consume_loop.simps)
  have 2: "limit_exceeded 0 (consume_loop 200 [0] (set_limit 0 100 scenario_S1))"
    "\<not> any_limit_exceeded 0 (consume_loop 200 [0] (set_limit 0 100 scenario_S1))"
    "find_limit_exceeded_tracker 0 (consume_loop 200 [0] (set_limit 0 100 scenario_S1)) = None"
    "spare_capacity 0 (consume_loop 200 [0] (set_limit 0 100 scenario_S1)) = INT64_MAX"
    by (simp_all add: limit_exceeded_def any_limit_exceeded_def find_limit_exceeded_tracker_def
        spare_capacity_def consumption_def set_limit_def scenario_S1_def Let_def DCHECK_def
        update_consumption_def add_def sint_eval)
  have 3: "lowest_limit 0 (set_limit 0 (- 1) scenario_S2) =
     (- 1, (set_limit 0 (- 1) scenario_S2)\<lparr>dchecks := [Limit_tracker_has_limit 0]\<rparr>)"
    by (simp add: lowest_limit_def set_limit_def scenario_S2_def Let_def DCHECK_def has_limit_def
        limit_def std_min_def INT64_MAX_def sint_eval)
  from 1 c 2 3 show ?thesis by simp
qed

section \<open>\<^verbatim>\<open>try_consume\<close>\<close>

text \<open>
  Claim C10. On \<open>bytes \<le> 0\<close>, \<^verbatim>\<open>try_consume\<close> returns true and the state it returns is
  the state it was called in: no counter changes, nothing is released.
\<close>

theorem try_consume_nonpositive:
  "bytes \<le>s 0 \<Longrightarrow> try_consume gc_functions t bytes s = Some (True, s)"
  by (simp add: try_consume_def)

text \<open>
  At the tree of scenario S2 after 600 bytes were charged: \<^verbatim>\<open>child.try_consume(-100)\<close>
  changes nothing, whereas \<^verbatim>\<open>child.consume(-100)\<close> releases 100 bytes at child and root.
\<close>

theorem try_consume_nonpositive_witness:
  "(- 100 :: int64) \<le>s 0 \<and>
   try_consume (\<lambda>_. []) 1 (- 100) scenario_S2_charged = Some (True, scenario_S2_charged) \<and>
   consumption 1 scenario_S2_charged = 600 \<and>
   map_option (consumption 1) (consume 1 (- 100) scenario_S2_charged) = Some 500 \<and>
   map_option (consumption 0) (consume 1 (- 100) scenario_S2_charged) = Some 500"
proof -
  have h: "(- 100 :: int64) \<le>s 0" by (simp add: sint_eval)
  have m: "consumption_metric_f (trackers scenario_S2_charged 1) = None"
    and c: "all_trackers_f (trackers scenario_S2_charged 1) = [1, 0]"
    and v: "consumption 0 scenario_S2_charged = 600" "consumption 1 scenario_S2_charged = 600"
    by (simp_all add: scenario_S2_charged_def consumption_def)
  have "consume 1 (- 100) scenario_S2_charged =
          Some (release_loop 100 [1, 0] scenario_S2_charged)"
    using m c by (simp add: consume_unfold release_unfold sint_eval del: release_loop.simps)
  with try_consume_nonpositive[OF h, of "\<lambda>_. []" 1 scenario_S2_charged] h v
  show ?thesis by (simp add: release_loop_consumption del: release_loop.simps)
qed

lemma try_add_at_unfold:
  "try_add_at a b l s =
     (if l <s consumption a s + b then (False, s) else (True, update_consumption a (add b) s))"
  by (simp add: try_add_at_def try_add_def add_def Let_def consumption_def update_consumption_def)

lemma GcMemory_still_over:
  "GcMemory gcs t m s = (over, s') \<Longrightarrow> over \<longleftrightarrow> m <s consumption t s'"
  by (auto simp: GcMemory_def Let_def signed.not_less split: if_splits)

lemma try_consume_while_unfold:
  assumes "0 \<le>s l" "0 <s b"
  shows "try_consume_while gcs a b l s =
     Some (if l <s consumption a s + b then
             (case GcMemory gcs a (l - b) s of
                (still_over, s2) \<Rightarrow>
                  if still_over then (False, s2) else (True, update_consumption a (add b) s2))
           else (True, update_consumption a (add b) s))"
proof (cases "l <s consumption a s + b")
  case False
  then show ?thesis by (subst try_consume_while.simps) (simp add: try_add_at_unfold)
next
  case True
  obtain over s2 where g: "GcMemory gcs a (l - b) s = (over, s2)" by (cases "GcMemory gcs a (l - b) s")
  show ?thesis
  proof (cases over)
    case True
    with \<open>l <s consumption a s + b\<close> g show ?thesis
      by (subst try_consume_while.simps) (simp add: try_add_at_unfold)
  next
    case False
    with GcMemory_still_over[OF g] have "consumption a s2 \<le>s l - b" by (simp add: signed.not_less)
    from room_after_gc[OF assms this] have r: "\<not> l <s consumption a s2 + b" .
    have "try_consume_while gcs a b l s2 = Some (True, update_consumption a (add b) s2)"
      using r by (subst try_consume_while.simps) (simp add: try_add_at_unfold)
    with True False g show ?thesis
      by (subst try_consume_while.simps) (simp add: try_add_at_unfold)
  qed
qed

lemma try_consume_loop_returns:
  "0 <s b \<Longrightarrow> \<exists>r. try_consume_loop gcs b todo visited s = Some r"
proof (induction todo arbitrary: visited s)
  case Nil
  show ?case by auto
next
  case (Cons x xs)
  show ?case
  proof (cases "limit x s <s 0")
    case True
    with Cons show ?thesis by (simp add: Let_def)
  next
    case False
    then have "0 \<le>s limit x s" by (simp add: not_sless_0)
    from try_consume_while_unfold[OF this Cons(2)] obtain r where
      r: "try_consume_while gcs x b (limit x s) s = Some r"
      by blast
    obtain ok s1 where "r = (ok, s1)" by (cases r)
    with r False Cons show ?thesis by (cases ok) (auto simp: Let_def)
  qed
qed

lemma try_consume_returns: "\<exists>r. try_consume gcs t b s = Some r"
proof (cases "b \<le>s 0")
  case True
  then show ?thesis by (auto simp: try_consume_def)
next
  case False
  then have "0 <s b" by (simp add: signed.not_le)
  from try_consume_loop_returns[OF this] False show ?thesis
    by (simp add: try_consume_def Let_def)
qed

lemmas eval_defs =
  try_consume_def Let_def limit_def consumption_def update_consumption_def add_def std_max_def
  GcMemory_def RefreshConsumptionFromMetric_def DCHECK_def set_value_def try_consume_while_unfold
  sint_eval

subsection \<open>The walk up to the first failing \<^verbatim>\<open>try_add\<close>\<close>


lemma rollback_structure: "same_structure s0 (rollback b vs s) = same_structure s0 s"
  by (induction vs arbitrary: s) simp_all

lemma rollback_dchecks [simp]: "dchecks (rollback b vs s) = dchecks s"
  by (induction vs arbitrary: s) simp_all

lemma rollback_gc_calls [simp]: "gc_calls (rollback b vs s) = gc_calls s"
  by (induction vs arbitrary: s) simp_all




lemma try_consume_loop_first_failure:
  assumes "0 <s b"
  shows "try_consume_loop gcs b todo visited s =
     (case first_failure b todo visited s of
        Inr s' \<Rightarrow> Some (True, s')
      | Inl (vis, a, rest, s2) \<Rightarrow>
          (case GcMemory gcs a (limit a s2 - b) s2 of
             (still_over, s3) \<Rightarrow>
               if still_over then Some (False, rollback b vis s3)
               else try_consume_loop gcs b rest (vis @ [a]) (update_consumption a (add b) s3)))"
proof (induction todo arbitrary: visited s)
  case Nil
  show ?case by simp
next
  case (Cons x xs)
  show ?case
  proof (cases "limit x s <s 0")
    case True
    then have "\<not> 0 \<le>s limit x s" by (simp add: signed.not_le)
    with True Cons show ?thesis by (simp add: Let_def)
  next
    case False
    then have l0: "0 \<le>s limit x s" by (simp add: signed.not_less)
    note w = try_consume_while_unfold[OF l0 assms, of gcs x s]
    show ?thesis
    proof (cases "limit x s <s consumption x s + b")
      case fits: False
      with False l0 w Cons show ?thesis by (simp add: Let_def)
    next
      case over: True
      obtain still_over s3 where g: "GcMemory gcs x (limit x s - b) s = (still_over, s3)"
        by (cases "GcMemory gcs x (limit x s - b) s")
      with False l0 w over show ?thesis by (cases still_over) (simp_all add: Let_def)
    qed
  qed
qed

lemma try_consume_first_failure:
  assumes "0 <s bytes"
  shows "try_consume gcs t bytes s =
     (let s1 = (if consumption_metric_f (trackers s t) \<noteq> None
                then RefreshConsumptionFromMetric t s else s)
      in case first_failure bytes (rev (all_trackers_f (trackers s1 t))) [] s1 of
           Inr s' \<Rightarrow> Some (True, s')
         | Inl (vis, a, rest, s2) \<Rightarrow>
             (case GcMemory gcs a (limit a s2 - bytes) s2 of
                (still_over, s3) \<Rightarrow>
                  if still_over then Some (False, rollback bytes vis s3)
                  else try_consume_loop gcs bytes rest (vis @ [a])
                         (update_consumption a (add bytes) s3)))"
proof -
  from assms have "\<not> bytes \<le>s 0" by (simp add: signed.not_le)
  then show ?thesis
    unfolding try_consume_def Let_def
    by (simp add: try_consume_loop_first_failure[OF assms])
qed

lemma try_consume_loop_false:
  assumes "0 <s b"
  shows "try_consume_loop gcs b todo visited s = Some (False, s') \<Longrightarrow>
     \<exists>a\<in>set todo. \<exists>vis s2 s3.
       0 \<le>s limit a s2 \<and> limit a s2 <s consumption a s2 + b \<and>
       GcMemory gcs a (limit a s2 - b) s2 = (True, s3) \<and> s' = rollback b vis s3"
proof (induction todo arbitrary: visited s)
  case Nil
  then show ?case by simp
next
  case (Cons x xs)
  show ?case
  proof (cases "limit x s <s 0")
    case True
    with Cons(2) have "try_consume_loop gcs b xs (visited @ [x]) (update_consumption x (add b) s)
         = Some (False, s')" by (simp add: Let_def)
    from Cons(1)[OF this] show ?thesis by auto
  next
    case False
    then have l0: "0 \<le>s limit x s" by (simp add: signed.not_less)
    note w = try_consume_while_unfold[OF l0 assms, of gcs x s]
    show ?thesis
    proof (cases "limit x s <s consumption x s + b")
      case fits: False
      with False w Cons(2)
      have "try_consume_loop gcs b xs (visited @ [x]) (update_consumption x (add b) s)
         = Some (False, s')" by (simp add: Let_def)
      from Cons(1)[OF this] show ?thesis by auto
    next
      case over: True
      obtain still_over s3 where g: "GcMemory gcs x (limit x s - b) s = (still_over, s3)"
        by (cases "GcMemory gcs x (limit x s - b) s")
      show ?thesis
      proof (cases still_over)
        case True
        with False w over g Cons(2) have "s' = rollback b visited s3" by (simp add: Let_def)
        with True g l0 over show ?thesis by auto
      next
        case no: False
        with False w over g Cons(2)
        have "try_consume_loop gcs b xs (visited @ [x]) (update_consumption x (add b) s3)
           = Some (False, s')" by (simp add: Let_def)
        from Cons(1)[OF this] show ?thesis by auto
      qed
    qed
  qed
qed

lemma try_consume_false:
  assumes "try_consume gcs t bytes s = Some (False, s')"
  shows "\<exists>a\<in>set (all_trackers_f (trackers s t)). \<exists>vis s2 s3.
       0 \<le>s limit a s2 \<and> limit a s2 <s consumption a s2 + bytes \<and>
       GcMemory gcs a (limit a s2 - bytes) s2 = (True, s3) \<and> s' = rollback bytes vis s3"
proof -
  have b: "0 <s bytes"
  proof (rule ccontr)
    assume "\<not> 0 <s bytes"
    then have "bytes \<le>s 0" by (simp add: signed.not_less)
    with assms show False by (simp add: try_consume_def)
  qed
  then have nle: "\<not> bytes \<le>s 0" by (simp add: signed.not_le)
  define s1 where "s1 = (if consumption_metric_f (trackers s t) \<noteq> None
                          then RefreshConsumptionFromMetric t s else s)"
  have ch: "all_trackers_f (trackers s1 t) = all_trackers_f (trackers s t)"
    by (simp add: s1_def)
  have "try_consume gcs t bytes s =
          try_consume_loop gcs bytes (rev (all_trackers_f (trackers s t))) [] s1"
    using nle ch unfolding try_consume_def Let_def s1_def by simp
  with assms have "try_consume_loop gcs bytes (rev (all_trackers_f (trackers s t))) [] s1
      = Some (False, s')" by simp
  from try_consume_loop_false[OF b this] show ?thesis by simp
qed

subsection \<open>Chains built by the constructor\<close>

text \<open>
  \<^verbatim>\<open>Init\<close> returns only when the parent pointers reach the root, and the chain it stores
  then has no repetition.
\<close>

lemma parent_chain_unique:
  "parent_chain s cur p \<Longrightarrow> parent_chain s cur q \<Longrightarrow> p = q"
proof (induction p arbitrary: cur q)
  case Nil
  then show ?case by (cases q) simp_all
next
  case (Cons a p)
  then show ?case by (cases q) auto
qed

lemma parent_chain_suffix:
  "parent_chain s cur (xs @ a # ys) \<Longrightarrow> parent_chain s (Some a) (a # ys)"
  by (induction xs arbitrary: cur) simp_all

lemma parent_chain_distinct: "parent_chain s cur p \<Longrightarrow> distinct p"
proof (induction p arbitrary: cur)
  case Nil
  show ?case by simp
next
  case (Cons a p)
  then have pc: "parent_chain s (parent_f (trackers s a)) p" by simp
  have "a \<notin> set p"
  proof
    assume "a \<in> set p"
    then obtain xs ys where p: "p = xs @ a # ys" by (auto dest: split_list)
    with pc have "parent_chain s (Some a) (a # ys)" by (auto dest: parent_chain_suffix)
    then have "parent_chain s (parent_f (trackers s a)) ys" by simp
    with pc have "p = ys" by (rule parent_chain_unique)
    with p show False by simp
  qed
  with Cons(1)[OF pc] show ?case by simp
qed

lemma Init_walk_parent_chain:
  "Init_walk s p al li = Some (al', li') \<Longrightarrow> \<exists>path. al' = al @ path \<and> parent_chain s p path"
proof (induction s p al li "(al', li')" rule: Init_walk.raw_induct[rotated, consumes 1, case_names 1])
  case (1 f s p al li)
  show ?case
  proof (cases p)
    case None
    with 1(2) show ?thesis by simp
  next
    case (Some a)
    with 1(2) have "f s (parent_f (trackers s a)) (al @ [a])
            (if has_limit a s then li @ [a] else li) = Some (al', li')" by simp
    from 1(1)[OF this] obtain path where
      "al' = (al @ [a]) @ path" "parent_chain s (parent_f (trackers s a)) path" by blast
    with Some show ?thesis by (intro exI[of _ "a # path"]) simp
  qed
qed

lemma Init_distinct:
  assumes "Init this s = Some s'"
  shows "distinct (all_trackers_f (trackers s' this))"
proof -
  from assms obtain al li where w: "Init_walk s (Some this) [] [] = Some (al, li)"
    and s': "s' = s\<lparr>trackers := (trackers s)
                  (this := (trackers s this)\<lparr>all_trackers_f := al, limit_trackers_f := li\<rparr>)\<rparr>"
    by (auto simp: Init_def split: option.splits)
  from Init_walk_parent_chain[OF w] have "parent_chain s (Some this) al" by simp
  then have "distinct al" by (rule parent_chain_distinct)
  then show ?thesis by (simp add: s')
qed

lemma MemTracker_new_distinct:
  "MemTracker_new this byte_limit parent s = Some s' \<Longrightarrow>
   distinct (all_trackers_f (trackers s' this))"
  unfolding MemTracker_new_def by (rule Init_distinct)

subsection \<open>How the states of the scenarios arise\<close>




lemma scenario_S2_charged_reached: "consume 1 600 scenario_S2 = Some scenario_S2_charged"
  by (simp add: consume_unfold scenario_S2_def scenario_S2_charged_def
      store_def tracker_def update_consumption_def add_def std_max_def DCHECK_def
      consumption_def Let_def sint_eval fun_eq_iff)

lemma scenario_S3_charged_reached: "consume 2 250 scenario_S3 = Some scenario_S3_charged"
  by (simp add: consume_unfold scenario_S3_def scenario_S3_charged_def
      store_def tracker_def update_consumption_def add_def std_max_def DCHECK_def
      consumption_def Let_def sint_eval fun_eq_iff)


subsection \<open>All or nothing\<close>




subsection \<open>Roll-back\<close>




section \<open>Reclamation\<close>

lemma run_gc_functions_Cons:
  "run_gc_functions t m i (gc # rest) s =
     run_gc_functions t m (Suc i) rest
       (s\<lparr>trackers := gc (consumption t s - m) (trackers s),
          gc_calls := gc_calls s @ [(t, i, consumption t s - m)]\<rparr>)"
  by (simp add: Let_def)

lemma run_gc_functions_calls:
  "gc_calls (run_gc_functions t m i fs s) =
     gc_calls s @ map (\<lambda>k. (t, i + k, consumption t (run_gc_functions t m i (take k fs) s) - m))
                      [0..<length fs]"
proof (induction fs arbitrary: i s)
  case Nil
  show ?case by simp
next
  case (Cons f fs)
  let ?s1 = "s\<lparr>trackers := f (consumption t s - m) (trackers s),
               gc_calls := gc_calls s @ [(t, i, consumption t s - m)]\<rparr>"
  have u: "[0..<length (f # fs)] = 0 # map Suc [0..<length fs]"
    by (simp del: upt_Suc add: upt_conv_Cons map_Suc_upt)
  have "gc_calls (run_gc_functions t m i (f # fs) s) = gc_calls (run_gc_functions t m (Suc i) fs ?s1)"
    by (simp only: run_gc_functions_Cons)
  also have "\<dots> = gc_calls ?s1 @
      map (\<lambda>k. (t, Suc i + k, consumption t (run_gc_functions t m (Suc i) (take k fs) ?s1) - m))
          [0..<length fs]"
    by (rule Cons)
  also have "\<dots> = gc_calls s @
      map (\<lambda>k. (t, i + k, consumption t (run_gc_functions t m i (take k (f # fs)) s) - m))
          [0..<length (f # fs)]"
    unfolding u by (simp add: comp_def Let_def)
  finally show ?case .
qed

lemma run_gc_functions_snoc:
  "run_gc_functions t m i (fs @ [g]) s =
     (let s1 = run_gc_functions t m i fs s
      in s1\<lparr>trackers := g (consumption t s1 - m) (trackers s1),
            gc_calls := gc_calls s1 @ [(t, i + length fs, consumption t s1 - m)]\<rparr>)"
  by (induction fs arbitrary: i s) (simp_all add: Let_def)

lemma calls_of_append: "calls_of a (xs @ ys) = calls_of a xs @ calls_of a ys"
  by (simp add: calls_of_def)

lemma calls_of_other: "a \<notin> fst ` set calls \<Longrightarrow> calls_of a calls = []"
  by (auto simp: calls_of_def filter_empty_conv)

lemma calls_of_run:
  "calls_of a (map (\<lambda>k. (t, k, f k)) [0..<n]) = (if a = t then [0..<n] else [])"
  by (simp add: calls_of_def filter_map comp_def)

lemma GcMemory_calls:
  "gc_calls (snd (GcMemory gcs t m s)) =
     gc_calls s @
     (if consumption t s \<le>s m then []
      else map (\<lambda>k. (t, k, consumption t (run_gc_functions t m 0 (take k (gcs t)) s) - m))
               [0..<length (gcs t)])"
  by (simp add: GcMemory_def Let_def run_gc_functions_calls)

lemma try_consume_while_calls:
  assumes "0 \<le>s l" "0 <s b" "try_consume_while gcs a b l s = Some (ok, s1)"
  shows "\<exists>new. gc_calls s1 = gc_calls s @ new \<and> fst ` set new \<subseteq> {a} \<and>
           (calls_of a new = [] \<or> calls_of a new = [0..<length (gcs a)])"
proof (cases "l <s consumption a s + b")
  case False
  with assms(3) have "s1 = update_consumption a (add b) s"
    by (simp add: try_consume_while_unfold[OF assms(1,2)])
  then have "gc_calls s1 = gc_calls s @ []" by simp
  then show ?thesis by (intro exI[of _ "[]"]) (simp add: calls_of_def)
next
  case True
  obtain over s2 where g: "GcMemory gcs a (l - b) s = (over, s2)"
    by (cases "GcMemory gcs a (l - b) s")
  with True assms(3) have "gc_calls s1 = gc_calls s2"
    by (cases over) (auto simp: try_consume_while_unfold[OF assms(1,2)])
  with GcMemory_calls[of gcs a "l - b" s] g
  have c: "gc_calls s1 = gc_calls s @
     (if consumption a s \<le>s l - b then []
      else map (\<lambda>k. (a, k, consumption a (run_gc_functions a (l - b) 0 (take k (gcs a)) s) - (l - b)))
               [0..<length (gcs a)])" by simp
  show ?thesis
  proof (cases "consumption a s \<le>s l - b")
    case True
    with c have "gc_calls s1 = gc_calls s @ []" by simp
    then show ?thesis by (intro exI[of _ "[]"]) (simp add: calls_of_def)
  next
    case False
    let ?new = "map (\<lambda>k. (a, k, consumption a (run_gc_functions a (l - b) 0 (take k (gcs a)) s) - (l - b)))
               [0..<length (gcs a)]"
    from c False have "gc_calls s1 = gc_calls s @ ?new" by simp
    moreover have "fst ` set ?new \<subseteq> {a}" by auto
    moreover have "calls_of a ?new = [0..<length (gcs a)]" by (simp add: calls_of_run)
    ultimately show ?thesis by blast
  qed
qed

lemma try_consume_loop_calls:
  assumes "0 <s b"
  shows "distinct todo \<Longrightarrow> try_consume_loop gcs b todo visited s = Some (ok, s') \<Longrightarrow>
     \<exists>new. gc_calls s' = gc_calls s @ new \<and> fst ` set new \<subseteq> set todo \<and>
       (\<forall>a. calls_of a new = [] \<or> calls_of a new = [0..<length (gcs a)])"
proof (induction todo arbitrary: visited s)
  case Nil
  then have "gc_calls s' = gc_calls s @ []" by simp
  then show ?case by (intro exI[of _ "[]"]) (simp add: calls_of_def)
next
  case (Cons x xs)
  from Cons(2) have dx: "distinct xs" and xn: "x \<notin> set xs" by simp_all
  show ?case
  proof (cases "limit x s <s 0")
    case True
    with Cons(3) have "try_consume_loop gcs b xs (visited @ [x]) (update_consumption x (add b) s)
         = Some (ok, s')" by (simp add: Let_def)
    from Cons(1)[OF dx this] show ?thesis by auto
  next
    case False
    then have l0: "0 \<le>s limit x s" by (simp add: signed.not_less)
    from try_consume_while_unfold[OF l0 assms, of gcs x s] obtain r where
      r: "try_consume_while gcs x b (limit x s) s = Some r" by blast
    obtain ok1 s1 where r1: "r = (ok1, s1)" by (cases r)
    from try_consume_while_calls[OF l0 assms r[unfolded r1]] obtain new1 where
      n1: "gc_calls s1 = gc_calls s @ new1" "fst ` set new1 \<subseteq> {x}"
        "calls_of x new1 = [] \<or> calls_of x new1 = [0..<length (gcs x)]" by blast
    show ?thesis
    proof (cases ok1)
      case False
      with Cons(3) r r1 \<open>\<not> limit x s <s 0\<close> have "s' = rollback b visited s1"
        by (simp add: Let_def)
      with n1(1) have g: "gc_calls s' = gc_calls s @ new1" by simp
      have "\<forall>a. calls_of a new1 = [] \<or> calls_of a new1 = [0..<length (gcs a)]"
      proof
        fix a show "calls_of a new1 = [] \<or> calls_of a new1 = [0..<length (gcs a)]"
        proof (cases "a = x")
          case True with n1(3) show ?thesis by simp
        next
          case False
          with n1(2) have "a \<notin> fst ` set new1" by auto
          then show ?thesis by (simp add: calls_of_other)
        qed
      qed
      with g n1(2) show ?thesis by (intro exI[of _ new1]) auto
    next
      case True
      with Cons(3) r r1 \<open>\<not> limit x s <s 0\<close>
      have "try_consume_loop gcs b xs (visited @ [x]) s1 = Some (ok, s')"
        by (simp add: Let_def)
      from Cons(1)[OF dx this] obtain new2 where
        n2: "gc_calls s' = gc_calls s1 @ new2" "fst ` set new2 \<subseteq> set xs"
          "\<forall>a. calls_of a new2 = [] \<or> calls_of a new2 = [0..<length (gcs a)]" by blast
      have g: "gc_calls s' = gc_calls s @ (new1 @ new2)" using n1(1) n2(1) by simp
      have f: "fst ` set (new1 @ new2) \<subseteq> set (x # xs)" using n1(2) n2(2) by auto
      have "\<forall>a. calls_of a (new1 @ new2) = [] \<or> calls_of a (new1 @ new2) = [0..<length (gcs a)]"
      proof
        fix a show "calls_of a (new1 @ new2) = [] \<or> calls_of a (new1 @ new2) = [0..<length (gcs a)]"
        proof (cases "a = x")
          case True
          with xn n2(2) have "a \<notin> fst ` set new2" by auto
          then have "calls_of a new2 = []" by (rule calls_of_other)
          with True n1(3) show ?thesis by (simp add: calls_of_append)
        next
          case False
          with n1(2) have "a \<notin> fst ` set new1" by auto
          then have "calls_of a new1 = []" by (rule calls_of_other)
          with n2(3) show ?thesis by (simp add: calls_of_append)
        qed
      qed
      with g f show ?thesis by blast
    qed
  qed
qed

lemma try_consume_calls:
  assumes "distinct (all_trackers_f (trackers s t))"
  shows "\<exists>ok s' new. try_consume gcs t bytes s = Some (ok, s') \<and>
           gc_calls s' = gc_calls s @ new \<and>
           fst ` set new \<subseteq> set (all_trackers_f (trackers s t)) \<and>
           (\<forall>a. calls_of a new = [] \<or> calls_of a new = [0..<length (gcs a)])"
proof (cases "bytes \<le>s 0")
  case True
  then have "try_consume gcs t bytes s = Some (True, s)" by (simp add: try_consume_def)
  moreover have "gc_calls s = gc_calls s @ []" by simp
  ultimately show ?thesis by (intro exI[of _ True] exI[of _ s] exI[of _ "[]"]) (simp add: calls_of_def)
next
  case False
  then have b: "0 <s bytes" by (simp add: signed.not_le)
  define s1 where "s1 = (if consumption_metric_f (trackers s t) \<noteq> None
                          then RefreshConsumptionFromMetric t s else s)"
  have g1: "gc_calls s1 = gc_calls s" and ch: "all_trackers_f (trackers s1 t) = all_trackers_f (trackers s t)"
    by (simp_all add: s1_def)
  have eq: "try_consume gcs t bytes s =
            try_consume_loop gcs bytes (rev (all_trackers_f (trackers s t))) [] s1"
    using False ch unfolding try_consume_def Let_def s1_def by simp
  from try_consume_loop_returns[OF b, of gcs "rev (all_trackers_f (trackers s t))" "[]" s1]
  obtain r where r: "try_consume_loop gcs bytes (rev (all_trackers_f (trackers s t))) [] s1 = Some r"
    by blast
  obtain ok s' where r1: "r = (ok, s')" by (cases r)
  from assms have "distinct (rev (all_trackers_f (trackers s t)))" by simp
  from try_consume_loop_calls[OF b this r[unfolded r1]] g1 eq r r1 show ?thesis by auto
qed

lemma non_increasing_arguments:
  fixes c :: "nat \<Rightarrow> int64"
  assumes "\<forall>k. Suc k < n \<longrightarrow> c (Suc k) \<le>s c k" "\<forall>k<n. sub_no_overflow (c k) m"
  shows "sorted_wrt (\<lambda>x y. y \<le>s x) (map (\<lambda>k. c k - m) [0..<n])"
proof -
  have mono: "k < n \<Longrightarrow> j \<le> k \<Longrightarrow> c k \<le>s c j" for j k
  proof (induction k)
    case 0
    then show ?case by simp
  next
    case (Suc k)
    show ?case
    proof (cases "j = Suc k")
      case True
      then show ?thesis by simp
    next
      case False
      with Suc(3) have "j \<le> k" by simp
      with Suc(1,2) have "c k \<le>s c j" by simp
      moreover from assms(1) Suc(2) have "c (Suc k) \<le>s c k" by simp
      ultimately show ?thesis by (meson signed.order_trans)
    qed
  qed
  have "c k - m \<le>s c j - m" if "j < k" "k < n" for j k
  proof (rule sub_no_overflow_mono)
    from that show "c k \<le>s c j" by (simp add: mono)
    from that assms(2) show "sub_no_overflow (c k) m" "sub_no_overflow (c j) m" by simp_all
  qed
  then show ?thesis by (simp add: sorted_wrt_iff_nth_less)
qed

text \<open>
  Claim C3, in five parts.
  \<^item> \<^verbatim>\<open>GcMemory\<close> returns false at once, changing nothing, when the consumption is at most
    \<open>max_consumption\<close>.
  \<^item> Otherwise it invokes every registered GC function exactly once, in registration
    order; the function with index \<open>k\<close> receives the consumption left by the \<open>k\<close>
    functions before it minus \<open>max_consumption\<close>; it returns whether the consumption is
    still above \<open>max_consumption\<close>.
  \<^item> The argument does not rise as the consumption drops: a function that finds a
    consumption no higher than an earlier one did receives an argument no higher than
    that one's, and when the consumption does not rise from one function to the next the
    arguments are non-increasing. (Both for differences that \<^verbatim>\<open>int64_t\<close> can hold.)
  \<^item> At a tracker with a limit, the loop of \<^verbatim>\<open>try_consume\<close> first tries \<^verbatim>\<open>try_add\<close>; on
    failure it calls \<^verbatim>\<open>GcMemory(limit - bytes)\<close> once; it gives up exactly when that call
    returns true, and otherwise the repeated \<^verbatim>\<open>try_add\<close> succeeds. For the whole call:
    up to the first tracker where \<^verbatim>\<open>try_add\<close> fails nothing but the adds happens; there
    \<^verbatim>\<open>GcMemory(limit - bytes)\<close> runs in the state reached; if it returns true the adds are
    rolled back and \<^verbatim>\<open>try_consume\<close> returns false, otherwise \<open>bytes\<close> are added there and
    the loop goes on below that tracker in the same way. In particular \<^verbatim>\<open>try_consume\<close>
    returns false only after a \<^verbatim>\<open>GcMemory(limit - bytes)\<close> at a tracker of the chain
    returned true.
  \<^item> \<^verbatim>\<open>try_consume\<close> always returns. On a chain without repetition, as the constructor
    builds it, the GC invocations it adds belong to trackers of the chain; for every
    tracker they are either none or each of its GC functions once, in registration order.
\<close>

theorem gc_protocol:
  "(consumption t s \<le>s max_consumption \<longrightarrow> GcMemory gcs t max_consumption s = (False, s)) \<and>
   (\<not> consumption t s \<le>s max_consumption \<longrightarrow>
      (\<exists>s'. GcMemory gcs t max_consumption s = (max_consumption <s consumption t s', s') \<and>
         gc_calls s' = gc_calls s @
           map (\<lambda>k. (t, k, consumption_before_gc gcs t max_consumption k s - max_consumption))
               [0..<length (gcs t)])) \<and>
   (\<forall>j k. j < k \<and> k < length (gcs t) \<and>
      consumption_before_gc gcs t max_consumption k s
        \<le>s consumption_before_gc gcs t max_consumption j s \<and>
      sub_no_overflow (consumption_before_gc gcs t max_consumption j s) max_consumption \<and>
      sub_no_overflow (consumption_before_gc gcs t max_consumption k s) max_consumption \<longrightarrow>
      consumption_before_gc gcs t max_consumption k s - max_consumption
        \<le>s consumption_before_gc gcs t max_consumption j s - max_consumption) \<and>
   ((\<forall>k. Suc k < length (gcs t) \<longrightarrow>
        consumption_before_gc gcs t max_consumption (Suc k) s
          \<le>s consumption_before_gc gcs t max_consumption k s) \<and>
    (\<forall>k<length (gcs t).
        sub_no_overflow (consumption_before_gc gcs t max_consumption k s) max_consumption) \<longrightarrow>
      sorted_wrt (\<lambda>x y. y \<le>s x)
        (map (\<lambda>k. consumption_before_gc gcs t max_consumption k s - max_consumption)
             [0..<length (gcs t)])) \<and>
   (0 \<le>s limit_v \<and> 0 <s bytes \<longrightarrow>
      try_consume_while gcs t bytes limit_v s =
        Some (if limit_v <s consumption t s + bytes then
                (case GcMemory gcs t (limit_v - bytes) s of
                   (still_over, s2) \<Rightarrow>
                     if still_over then (False, s2)
                     else (True, update_consumption t (add bytes) s2))
              else (True, update_consumption t (add bytes) s))) \<and>
   (0 <s bytes \<longrightarrow>
      try_consume_loop gcs bytes todo visited s =
        (case first_failure bytes todo visited s of
           Inr s' \<Rightarrow> Some (True, s')
         | Inl (vis, a, rest, s2) \<Rightarrow>
             (case GcMemory gcs a (limit a s2 - bytes) s2 of
                (still_over, s3) \<Rightarrow>
                  if still_over then Some (False, rollback bytes vis s3)
                  else try_consume_loop gcs bytes rest (vis @ [a])
                         (update_consumption a (add bytes) s3)))) \<and>
   (0 <s bytes \<longrightarrow>
      try_consume gcs t bytes s =
        (let s1 = (if consumption_metric_f (trackers s t) \<noteq> None
                   then RefreshConsumptionFromMetric t s else s)
         in case first_failure bytes (rev (all_trackers_f (trackers s1 t))) [] s1 of
              Inr s' \<Rightarrow> Some (True, s')
            | Inl (vis, a, rest, s2) \<Rightarrow>
                (case GcMemory gcs a (limit a s2 - bytes) s2 of
                   (still_over, s3) \<Rightarrow>
                     if still_over then Some (False, rollback bytes vis s3)
                     else try_consume_loop gcs bytes rest (vis @ [a])
                            (update_consumption a (add bytes) s3)))) \<and>
   (try_consume gcs t bytes s = Some (False, s_false) \<longrightarrow>
      (\<exists>a\<in>set (all_trackers_f (trackers s t)). \<exists>vis s2 s3.
         0 \<le>s limit a s2 \<and> limit a s2 <s consumption a s2 + bytes \<and>
         GcMemory gcs a (limit a s2 - bytes) s2 = (True, s3) \<and>
         s_false = rollback bytes vis s3)) \<and>
   (distinct (all_trackers_f (trackers s t)) \<longrightarrow>
      (\<exists>ok s' new. try_consume gcs t bytes s = Some (ok, s') \<and>
         gc_calls s' = gc_calls s @ new \<and>
         fst ` set new \<subseteq> set (all_trackers_f (trackers s t)) \<and>
         (\<forall>a. calls_of a new = [] \<or> calls_of a new = [0..<length (gcs a)]))) \<and>
   (\<exists>r. try_consume gcs t bytes s = Some r)"
proof -
  let ?c = "\<lambda>k. consumption_before_gc gcs t max_consumption k s"
  have 1: "consumption t s \<le>s max_consumption \<longrightarrow> GcMemory gcs t max_consumption s = (False, s)"
    by (simp add: GcMemory_def)
  have 2: "\<not> consumption t s \<le>s max_consumption \<longrightarrow>
      (\<exists>s'. GcMemory gcs t max_consumption s = (max_consumption <s consumption t s', s') \<and>
         gc_calls s' = gc_calls s @
           map (\<lambda>k. (t, k, ?c k - max_consumption)) [0..<length (gcs t)])"
  proof
    assume over: "\<not> consumption t s \<le>s max_consumption"
    let ?s' = "run_gc_functions t max_consumption 0 (gcs t) s"
    have a: "GcMemory gcs t max_consumption s = (max_consumption <s consumption t ?s', ?s')"
      using over by (simp add: GcMemory_def Let_def)
    have b: "gc_calls ?s' = gc_calls s @
           map (\<lambda>k. (t, k, ?c k - max_consumption)) [0..<length (gcs t)]"
      using run_gc_functions_calls[of t max_consumption 0 "gcs t" s]
      by (simp add: consumption_before_gc_def)
    from a b show "\<exists>s'. GcMemory gcs t max_consumption s = (max_consumption <s consumption t s', s') \<and>
         gc_calls s' = gc_calls s @
           map (\<lambda>k. (t, k, ?c k - max_consumption)) [0..<length (gcs t)]"
      by blast
  qed
  have 3: "\<forall>j k. j < k \<and> k < length (gcs t) \<and> ?c k \<le>s ?c j \<and>
      sub_no_overflow (?c j) max_consumption \<and> sub_no_overflow (?c k) max_consumption \<longrightarrow>
      ?c k - max_consumption \<le>s ?c j - max_consumption"
    by (simp add: sub_no_overflow_mono)
  have 4: "(\<forall>k. Suc k < length (gcs t) \<longrightarrow> ?c (Suc k) \<le>s ?c k) \<and>
    (\<forall>k<length (gcs t). sub_no_overflow (?c k) max_consumption) \<longrightarrow>
      sorted_wrt (\<lambda>x y. y \<le>s x) (map (\<lambda>k. ?c k - max_consumption) [0..<length (gcs t)])"
    using non_increasing_arguments[of "length (gcs t)" ?c max_consumption] by blast
  have 5: "0 \<le>s limit_v \<and> 0 <s bytes \<longrightarrow>
      try_consume_while gcs t bytes limit_v s =
        Some (if limit_v <s consumption t s + bytes then
                (case GcMemory gcs t (limit_v - bytes) s of
                   (still_over, s2) \<Rightarrow>
                     if still_over then (False, s2)
                     else (True, update_consumption t (add bytes) s2))
              else (True, update_consumption t (add bytes) s))"
    using try_consume_while_unfold[of limit_v bytes gcs t s] by blast
  have 6: "0 <s bytes \<longrightarrow>
      try_consume_loop gcs bytes todo visited s =
        (case first_failure bytes todo visited s of
           Inr s' \<Rightarrow> Some (True, s')
         | Inl (vis, a, rest, s2) \<Rightarrow>
             (case GcMemory gcs a (limit a s2 - bytes) s2 of
                (still_over, s3) \<Rightarrow>
                  if still_over then Some (False, rollback bytes vis s3)
                  else try_consume_loop gcs bytes rest (vis @ [a])
                         (update_consumption a (add bytes) s3)))"
    using try_consume_loop_first_failure[of bytes gcs todo visited s] by blast
  have 7: "0 <s bytes \<longrightarrow>
      try_consume gcs t bytes s =
        (let s1 = (if consumption_metric_f (trackers s t) \<noteq> None
                   then RefreshConsumptionFromMetric t s else s)
         in case first_failure bytes (rev (all_trackers_f (trackers s1 t))) [] s1 of
              Inr s' \<Rightarrow> Some (True, s')
            | Inl (vis, a, rest, s2) \<Rightarrow>
                (case GcMemory gcs a (limit a s2 - bytes) s2 of
                   (still_over, s3) \<Rightarrow>
                     if still_over then Some (False, rollback bytes vis s3)
                     else try_consume_loop gcs bytes rest (vis @ [a])
                            (update_consumption a (add bytes) s3)))"
    using try_consume_first_failure[of bytes gcs t s] by blast
  have 8: "try_consume gcs t bytes s = Some (False, s_false) \<longrightarrow>
      (\<exists>a\<in>set (all_trackers_f (trackers s t)). \<exists>vis s2 s3.
         0 \<le>s limit a s2 \<and> limit a s2 <s consumption a s2 + bytes \<and>
         GcMemory gcs a (limit a s2 - bytes) s2 = (True, s3) \<and>
         s_false = rollback bytes vis s3)"
    using try_consume_false[of gcs t bytes s s_false] by blast
  have 9: "distinct (all_trackers_f (trackers s t)) \<longrightarrow>
      (\<exists>ok s' new. try_consume gcs t bytes s = Some (ok, s') \<and>
         gc_calls s' = gc_calls s @ new \<and>
         fst ` set new \<subseteq> set (all_trackers_f (trackers s t)) \<and>
         (\<forall>a. calls_of a new = [] \<or> calls_of a new = [0..<length (gcs a)]))"
    using try_consume_calls[of s t gcs bytes] by blast
  have 10: "\<exists>r. try_consume gcs t bytes s = Some r" by (rule try_consume_returns)
  show ?thesis
    apply (intro conjI)
    using 1 apply assumption
    using 2 apply assumption
    using 3 apply assumption
    using 4 apply assumption
    using 5 apply assumption
    using 6 apply assumption
    using 7 apply assumption
    using 8 apply assumption
    using 9 apply assumption
    using 10 apply assumption
    done
qed

text \<open>
  Scenarios S4 and S5: root with limit 1000 and consumption 900, \<^verbatim>\<open>try_consume(200)\<close>.
  With a GC function that releases 200 bytes the function is called once with
  \<open>bytes_to_free = 100\<close>, the retry succeeds and the consumption ends at 900. With a GC
  function that frees nothing it is called once with 100, and \<^verbatim>\<open>try_consume\<close> returns
  false with the consumption still 900. With two GC functions that release 60 bytes each
  they find the consumptions 900 and 840 and are called with 100 and then 40; the retry
  succeeds at 780 and the consumption ends at 980. \<^verbatim>\<open>try_consume(2000)\<close>, more than the
  limit, calls the two with 1900 and 1840 and returns false.

  The tree of S3 with the three consumptions at 250, \<^verbatim>\<open>leaf.try_consume(100)\<close>: the root
  takes the 100 bytes, \<^verbatim>\<open>try_add\<close> fails at mid (limit 300), and \<^verbatim>\<open>GcMemory(200)\<close> runs at
  mid. With a GC function at mid that releases 100 bytes (at mid and root) it is called
  with \<open>bytes_to_free = 50\<close>, the retry succeeds, and the call returns true with root and
  mid at 250 and the leaf at 350. With one that frees nothing it is called with 50 and
  the call returns false with all three at 250.
\<close>

theorem gc_protocol_witness:
  "consumption 0 scenario_S4 \<le>s 950 \<and>
   GcMemory gc_functions_S4 0 950 scenario_S4 = (False, scenario_S4) \<and>
   \<not> consumption 0 scenario_S4 \<le>s 800 \<and>
   (0 :: int64) \<le>s 1000 \<and> (0 :: int64) <s 200 \<and> (0 :: int64) <s 100 \<and>
   length (gc_functions_two 0) = 2 \<and>
   consumption_before_gc gc_functions_two 0 800 0 scenario_S4 = 900 \<and>
   consumption_before_gc gc_functions_two 0 800 1 scenario_S4 = 840 \<and>
   (840 :: int64) \<le>s 900 \<and> sub_no_overflow 900 800 \<and> sub_no_overflow 840 800 \<and>
   (40 :: int64) \<le>s 100 \<and>
   map (\<lambda>k. consumption_before_gc gc_functions_two 0 800 k scenario_S4 - 800)
       [0..<length (gc_functions_two 0)] = [100, 40] \<and>
   sorted_wrt (\<lambda>x y. y \<le>s x) [100, 40 :: int64] \<and>
   distinct (all_trackers_f (trackers scenario_S4 0)) \<and>
   distinct (all_trackers_f (trackers scenario_S3_charged 2)) \<and>
   map_option fst (try_consume gc_functions_S4 0 200 scenario_S4) = Some True \<and>
   map_option (consumption 0 \<circ> snd) (try_consume gc_functions_S4 0 200 scenario_S4) = Some 900 \<and>
   map_option (gc_calls \<circ> snd) (try_consume gc_functions_S4 0 200 scenario_S4) = Some [(0, 0, 100)] \<and>
   map_option fst (try_consume gc_functions_S5 0 200 scenario_S4) = Some False \<and>
   map_option (consumption 0 \<circ> snd) (try_consume gc_functions_S5 0 200 scenario_S4) = Some 900 \<and>
   map_option (gc_calls \<circ> snd) (try_consume gc_functions_S5 0 200 scenario_S4) = Some [(0, 0, 100)] \<and>
   map_option fst (try_consume gc_functions_two 0 200 scenario_S4) = Some True \<and>
   map_option (consumption 0 \<circ> snd) (try_consume gc_functions_two 0 200 scenario_S4) = Some 980 \<and>
   map_option (gc_calls \<circ> snd) (try_consume gc_functions_two 0 200 scenario_S4) =
     Some [(0, 0, 100), (0, 1, 40)] \<and>
   map_option fst (try_consume gc_functions_two 0 2000 scenario_S4) = Some False \<and>
   map_option (consumption 0 \<circ> snd) (try_consume gc_functions_two 0 2000 scenario_S4) = Some 780 \<and>
   map_option (gc_calls \<circ> snd) (try_consume gc_functions_two 0 2000 scenario_S4) =
     Some [(0, 0, 1900), (0, 1, 1840)] \<and>
   map_option fst (try_consume gc_functions_mid 2 100 scenario_S3_charged) = Some True \<and>
   map_option (consumption 0 \<circ> snd) (try_consume gc_functions_mid 2 100 scenario_S3_charged) = Some 250 \<and>
   map_option (consumption 1 \<circ> snd) (try_consume gc_functions_mid 2 100 scenario_S3_charged) = Some 250 \<and>
   map_option (consumption 2 \<circ> snd) (try_consume gc_functions_mid 2 100 scenario_S3_charged) = Some 350 \<and>
   map_option (gc_calls \<circ> snd) (try_consume gc_functions_mid 2 100 scenario_S3_charged) =
     Some [(1, 0, 50)] \<and>
   map_option fst (try_consume gc_functions_mid_nothing 2 100 scenario_S3_charged) = Some False \<and>
   map_option (consumption 0 \<circ> snd) (try_consume gc_functions_mid_nothing 2 100 scenario_S3_charged) = Some 250 \<and>
   map_option (consumption 1 \<circ> snd) (try_consume gc_functions_mid_nothing 2 100 scenario_S3_charged) = Some 250 \<and>
   map_option (consumption 2 \<circ> snd) (try_consume gc_functions_mid_nothing 2 100 scenario_S3_charged) = Some 250 \<and>
   map_option (gc_calls \<circ> snd) (try_consume gc_functions_mid_nothing 2 100 scenario_S3_charged) =
     Some [(1, 0, 50)]"
proof -
  have c: "consumption 0 scenario_S4 = 900" and l: "limit 0 scenario_S4 = 1000"
    and ch: "all_trackers_f (trackers scenario_S4 0) = [0]"
    "all_trackers_f (trackers scenario_S3_charged 2) = [2, 1, 0]"
    by (simp_all add: scenario_S4_def scenario_S3_charged_def consumption_def limit_def)
  have h1: "consumption 0 scenario_S4 \<le>s 950" and h2: "\<not> consumption 0 scenario_S4 \<le>s 800"
    and h3: "(0 :: int64) \<le>s 1000" "(0 :: int64) <s 200" "(0 :: int64) <s 100"
    and h4: "(840 :: int64) \<le>s 900" "(40 :: int64) \<le>s 100"
    unfolding c by (simp_all add: sint_eval)
  have h5: "sub_no_overflow 900 800" "sub_no_overflow 840 800"
    by (simp_all add: sub_no_overflow_def)
  have len: "length (gc_functions_two 0) = 2"
    by (simp add: gc_functions_two_def add_gc_callback_def no_gc_functions_def)
  have cb: "consumption_before_gc gc_functions_two 0 800 0 scenario_S4 = 900"
    "consumption_before_gc gc_functions_two 0 800 (Suc 0) scenario_S4 = 840"
    by (simp_all add: consumption_before_gc_def gc_functions_two_def add_gc_callback_def
        no_gc_functions_def gc_release_def scenario_S4_def consumption_def add_def std_max_def
        Let_def sint_eval)
  have drops: "\<forall>k. Suc k < length (gc_functions_two 0) \<longrightarrow>
        consumption_before_gc gc_functions_two 0 800 (Suc k) scenario_S4
          \<le>s consumption_before_gc gc_functions_two 0 800 k scenario_S4"
  proof (intro allI impI)
    fix k assume "Suc k < length (gc_functions_two 0)"
    with len have "k = 0" by simp
    with cb h4 show "consumption_before_gc gc_functions_two 0 800 (Suc k) scenario_S4
          \<le>s consumption_before_gc gc_functions_two 0 800 k scenario_S4" by simp
  qed
  have fits: "\<forall>k<length (gc_functions_two 0).
        sub_no_overflow (consumption_before_gc gc_functions_two 0 800 k scenario_S4) 800"
  proof (intro allI impI)
    fix k assume "k < length (gc_functions_two 0)"
    with len have "k = 0 \<or> k = Suc 0" by auto
    with cb h5 show "sub_no_overflow (consumption_before_gc gc_functions_two 0 800 k scenario_S4) 800"
      by auto
  qed
  have args: "map (\<lambda>k. consumption_before_gc gc_functions_two 0 800 k scenario_S4 - 800)
       [0..<length (gc_functions_two 0)] = [100, 40]"
    unfolding len using cb by (simp add: numeral_2_eq_2)
  have e: "GcMemory gc_functions_S4 0 950 scenario_S4 = (False, scenario_S4)"
    using gc_protocol[of 0 scenario_S4 950 gc_functions_S4 1000 200 "[0]" "[]" scenario_S4] h1
    by blast
  have "sorted_wrt (\<lambda>x y. y \<le>s x)
        (map (\<lambda>k. consumption_before_gc gc_functions_two 0 800 k scenario_S4 - 800)
             [0..<length (gc_functions_two 0)])"
    using gc_protocol[of 0 scenario_S4 800 gc_functions_two 1000 200 "[0]" "[]" scenario_S4]
      drops fits by blast
  then have srt: "sorted_wrt (\<lambda>x y. y \<le>s x) [100, 40 :: int64]" unfolding args .
  have d: "distinct (all_trackers_f (trackers scenario_S4 0))"
    "distinct (all_trackers_f (trackers scenario_S3_charged 2))"
    by (simp_all add: ch)
  have r4: "map_option fst (try_consume gc_functions_S4 0 200 scenario_S4) = Some True"
    "map_option (consumption 0 \<circ> snd) (try_consume gc_functions_S4 0 200 scenario_S4) = Some 900"
    "map_option (gc_calls \<circ> snd) (try_consume gc_functions_S4 0 200 scenario_S4) = Some [(0, 0, 100)]"
    by (simp_all add: eval_defs scenario_S4_def gc_functions_S4_def add_gc_callback_def
        no_gc_functions_def gc_release_def)
  have r5: "map_option fst (try_consume gc_functions_S5 0 200 scenario_S4) = Some False"
    "map_option (consumption 0 \<circ> snd) (try_consume gc_functions_S5 0 200 scenario_S4) = Some 900"
    "map_option (gc_calls \<circ> snd) (try_consume gc_functions_S5 0 200 scenario_S4) = Some [(0, 0, 100)]"
    by (simp_all add: eval_defs scenario_S4_def gc_functions_S5_def add_gc_callback_def
        no_gc_functions_def gc_nothing_def)
  have r6: "map_option fst (try_consume gc_functions_two 0 200 scenario_S4) = Some True"
    "map_option (consumption 0 \<circ> snd) (try_consume gc_functions_two 0 200 scenario_S4) = Some 980"
    "map_option (gc_calls \<circ> snd) (try_consume gc_functions_two 0 200 scenario_S4) =
       Some [(0, 0, 100), (0, 1, 40)]"
    by (simp_all add: eval_defs scenario_S4_def gc_functions_two_def add_gc_callback_def
        no_gc_functions_def gc_release_def)
  have r7: "map_option fst (try_consume gc_functions_two 0 2000 scenario_S4) = Some False"
    "map_option (consumption 0 \<circ> snd) (try_consume gc_functions_two 0 2000 scenario_S4) = Some 780"
    "map_option (gc_calls \<circ> snd) (try_consume gc_functions_two 0 2000 scenario_S4) =
       Some [(0, 0, 1900), (0, 1, 1840)]"
    by (simp_all add: eval_defs scenario_S4_def gc_functions_two_def add_gc_callback_def
        no_gc_functions_def gc_release_def)
  note eq8 = gc_protocol[of 2 scenario_S3_charged 200 gc_functions_mid 300 100 "[0, 1, 2]" "[]"
      scenario_S3_charged, THEN conjunct2, THEN conjunct2, THEN conjunct2, THEN conjunct2,
      THEN conjunct2, THEN conjunct2, THEN conjunct1, THEN mp, OF h3(3)]
  have r8: "map_option fst (try_consume gc_functions_mid 2 100 scenario_S3_charged) = Some True"
    "map_option (consumption 0 \<circ> snd) (try_consume gc_functions_mid 2 100 scenario_S3_charged) = Some 250"
    "map_option (consumption 1 \<circ> snd) (try_consume gc_functions_mid 2 100 scenario_S3_charged) = Some 250"
    "map_option (consumption 2 \<circ> snd) (try_consume gc_functions_mid 2 100 scenario_S3_charged) = Some 350"
    "map_option (gc_calls \<circ> snd) (try_consume gc_functions_mid 2 100 scenario_S3_charged) =
       Some [(1, 0, 50)]"
    unfolding eq8
    by (simp_all add: Let_def limit_def consumption_def update_consumption_def add_def std_max_def
        GcMemory_def try_consume_while_unfold sint_eval scenario_S3_charged_def
        gc_functions_mid_def add_gc_callback_def no_gc_functions_def gc_release_chain_def
        gc_release_def)
  have r9: "map_option fst (try_consume gc_functions_mid_nothing 2 100 scenario_S3_charged) = Some False"
    "map_option (consumption 0 \<circ> snd) (try_consume gc_functions_mid_nothing 2 100 scenario_S3_charged) = Some 250"
    "map_option (consumption 1 \<circ> snd) (try_consume gc_functions_mid_nothing 2 100 scenario_S3_charged) = Some 250"
    "map_option (consumption 2 \<circ> snd) (try_consume gc_functions_mid_nothing 2 100 scenario_S3_charged) = Some 250"
    "map_option (gc_calls \<circ> snd) (try_consume gc_functions_mid_nothing 2 100 scenario_S3_charged) =
       Some [(1, 0, 50)]"
    by (simp_all add: eval_defs scenario_S3_charged_def gc_functions_mid_nothing_def
        add_gc_callback_def no_gc_functions_def gc_nothing_def)
  from h1 e h2 h3 len cb h4 h5 args srt d r4 r5 r6 r7 r8 r9 show ?thesis by simp
qed

end
